theory Spec2Isabelle
  imports Main "HOL-Library.Word" "HOL-Library.Multiset" "HOL-Library.AList"
begin

section \<open>nanoframe: a shallow embedding of \<^verbatim>\<open>nanoframe.h\<close>\<close>

text \<open>
  A \<^verbatim>\<open>Column<T>\<close> is a \<^verbatim>\<open>std::vector<T>\<close>, modelled as a HOL list. Sizes and
  positions (\<^verbatim>\<open>size_t\<close>) are natural numbers. Interned codes are the default
  \<^verbatim>\<open>Int = std::uint16_t\<close> of \<^verbatim>\<open>Symbol\<close>, modelled as \<open>16 word\<close>, so the
  conversion of \<^verbatim>\<open>table.size() + 1\<close> to the code type wraps as it does in the source.
\<close>

subsection \<open>Utility functions: transform and filter\<close>

text \<open>
  \<^verbatim>\<open>std::runtime_error\<close> carries its message. \<^verbatim>\<open>std::to_string\<close> of a
  \<^verbatim>\<open>size_t\<close> is its decimal rendering.
\<close>

datatype error = runtime_error string

definition digit_char :: "nat \<Rightarrow> char" where
  "digit_char d = ''0123456789'' ! d"

function to_string :: "nat \<Rightarrow> string" where
  "to_string n = (if n < 10 then [digit_char n] else to_string (n div 10) @ [digit_char (n mod 10)])"
  by pat_completeness auto
termination
  by (relation "measure (\<lambda>n. n)") auto

declare to_string.simps [simp del]

definition size_mismatch :: "nat \<Rightarrow> nat \<Rightarrow> error" where
  "size_mismatch tn sn =
     runtime_error (''Column size mismatch in nanoframe::transform: '' @ to_string tn
                    @ '' != '' @ to_string sn)"

text \<open>
  The loop \<^verbatim>\<open>for (size_t i = 0; i < t.size(); ++i) t[i] = f(t[i], s[i]);\<close> of the
  mutating overload (lines 177-179), started at position \<open>i\<close>.
\<close>

function transform_loop :: "('a \<Rightarrow> 'b \<Rightarrow> 'a) \<Rightarrow> 'b list \<Rightarrow> nat \<Rightarrow> 'a list \<Rightarrow> 'a list" where
  "transform_loop f s i t =
     (if i < length t then transform_loop f s (Suc i) (t[i := f (t ! i) (s ! i)]) else t)"
  by pat_completeness auto
termination
  by (relation "measure (\<lambda>(f, s, i, t). length t - i)") auto

declare transform_loop.simps [simp del]

text \<open>
  The copying overload's loop (lines 192-194) reads the constant \<open>t\<close> and writes
  the copy \<open>ret\<close>.
\<close>

function transform_copy_loop ::
  "('a \<Rightarrow> 'b \<Rightarrow> 'a) \<Rightarrow> 'a list \<Rightarrow> 'b list \<Rightarrow> nat \<Rightarrow> 'a list \<Rightarrow> 'a list" where
  "transform_copy_loop f t s i ret =
     (if i < length t then transform_copy_loop f t s (Suc i) (ret[i := f (t ! i) (s ! i)])
      else ret)"
  by pat_completeness auto
termination
  by (relation "measure (\<lambda>(f, t, s, i, ret). length t - i)") auto

declare transform_copy_loop.simps [simp del]

text \<open>
  \<^verbatim>\<open>transform(Container auto& t, const Container auto& s, auto f)\<close> (lines 172-182)
  mutates \<open>t\<close> in place. The model returns the exception thrown, if any, together
  with the content of \<open>t\<close> when the call ends.
\<close>

definition transform :: "'a list \<Rightarrow> 'b list \<Rightarrow> ('a \<Rightarrow> 'b \<Rightarrow> 'a) \<Rightarrow> error option \<times> 'a list" where
  "transform t s f =
     (if length t \<noteq> length s then (Some (size_mismatch (length t) (length s)), t)
      else (None, transform_loop f s 0 t))"

text \<open>
  \<^verbatim>\<open>transform(const T& t, const Container auto& s, auto f) -> T\<close> (lines 184-197)
  returns a new sequence or throws.
\<close>

definition transform_const :: "'a list \<Rightarrow> 'b list \<Rightarrow> ('a \<Rightarrow> 'b \<Rightarrow> 'a) \<Rightarrow> error + 'a list" where
  "transform_const t s f =
     (if length t \<noteq> length s then Inl (size_mismatch (length t) (length s))
      else Inr (transform_copy_loop f t s 0 t))"

text \<open>
  \<^verbatim>\<open>filter\<close> (lines 218-227) pushes \<^verbatim>\<open>t[i]\<close> for each \<open>i\<close> of \<open>ix\<close>.
  \<^verbatim>\<open>operator[]\<close> of a vector is not range-checked: a read at \<open>i \<ge> t.size()\<close> is
  undefined behaviour, which the model reports as \<open>None\<close>.
\<close>

fun filter_loop :: "'a list \<Rightarrow> nat list \<Rightarrow> 'a list \<Rightarrow> 'a list option" where
  "filter_loop t [] ret = Some ret"
| "filter_loop t (i # idxs) ret =
     (if i < length t then filter_loop t idxs (ret @ [t ! i]) else None)"

definition filter_col :: "'a list \<Rightarrow> nat list \<Rightarrow> 'a list option" where
  "filter_col t idxs = filter_loop t idxs []"

subsection \<open>String interning: \<^verbatim>\<open>intern_table\<close> and \<^verbatim>\<open>Symbol\<close>\<close>

text \<open>
  \<^verbatim>\<open>intern_table<TAG, Int>()\<close> (lines 28-32) is one static
  \<^verbatim>\<open>std::unordered_map<std::string, Int>\<close> per tag. A table is modelled as an
  association list with one entry per key, new keys appended: \<open>map_of\<close> is
  \<^verbatim>\<open>find\<close>, \<open>length\<close> is \<^verbatim>\<open>size()\<close> and \<open>AList.update\<close> is the
  assignment through \<^verbatim>\<open>operator[]\<close>. The process-wide state is a table for
  every tag; it starts with every table empty.
\<close>

type_synonym table = "(string \<times> 16 word) list"

type_synonym 'tag intern_tables = "'tag \<Rightarrow> table"

definition no_tables :: "'tag intern_tables" where
  "no_tables = (\<lambda>_. [])"

record Symbol =
  val :: "16 word"

text \<open>\<^verbatim>\<open>Symbol(null_symbol) : val(0) {}\<close> (line 42) does not read or write a table.\<close>

definition Symbol_of_null :: "'tag intern_tables \<Rightarrow> Symbol \<times> 'tag intern_tables" where
  "Symbol_of_null st = (\<lparr>val = 0\<rparr>, st)"

text \<open>
  \<^verbatim>\<open>Symbol(const std::string& s)\<close> (lines 44-54). In
  \<^verbatim>\<open>table[s] = table.size() + 1\<close> the right operand is evaluated first (the
  header needs C++20, where the right operand of an assignment is sequenced before the
  left), so the stored value is the size before the insertion plus one, converted to the
  16-bit code type.
\<close>

definition Symbol_of_string ::
  "'tag \<Rightarrow> string \<Rightarrow> 'tag intern_tables \<Rightarrow> Symbol \<times> 'tag intern_tables" where
  "Symbol_of_string tg s st =
     (let tbl = st tg;
          i = map_of tbl s;
          tbl' = (if i = None then AList.update s (word_of_nat (length tbl + 1)) tbl else tbl);
          i' = (if i = None then map_of tbl' s else i)
      in (\<lparr>val = the i'\<rparr>, st(tg := tbl')))"

definition Symbol_null :: "Symbol \<Rightarrow> bool" where
  "Symbol_null x \<longleftrightarrow> val x = 0"

definition Symbol_ok :: "Symbol \<Rightarrow> bool" where
  "Symbol_ok x \<longleftrightarrow> val x \<noteq> 0"

text \<open>Interning a sequence of strings under one tag, one constructor call after the other.\<close>

fun intern_all :: "'tag \<Rightarrow> string list \<Rightarrow> 'tag intern_tables \<Rightarrow> 'tag intern_tables" where
  "intern_all tg [] st = st"
| "intern_all tg (s # ss) st = intern_all tg ss (snd (Symbol_of_string tg s st))"

text \<open>
  What every table built by the constructor satisfies: one entry per string, and the
  entry at position \<open>k\<close> (in order of insertion) holds the code \<open>k + 1\<close> converted to
  16 bits.
\<close>

definition table_inv :: "table \<Rightarrow> bool" where
  "table_inv tbl \<longleftrightarrow>
     distinct (map fst tbl) \<and> map snd tbl = map word_of_nat [1..<Suc (length tbl)]"

text \<open>
  Concrete request sequences that fill a table: the strings \<^verbatim>\<open>a\<close>, \<^verbatim>\<open>aa\<close>,
  \<^verbatim>\<open>aaa\<close>, ... in this order.
\<close>

definition a_name :: "nat \<Rightarrow> string" where
  "a_name k = replicate k CHR ''a''"

definition a_names :: "nat \<Rightarrow> string list" where
  "a_names n = map a_name [1..<Suc n]"

definition full_tables :: "string intern_tables" where
  "full_tables = intern_all ''Color'' (a_names 65535) no_tables"

definition wrapped_tables :: "string intern_tables" where
  "wrapped_tables = intern_all ''Color'' (a_names 65536) no_tables"

subsection \<open>Grouping index: \<^verbatim>\<open>Index\<close>\<close>

text \<open>
  \<^verbatim>\<open>std::sort\<close> belongs to the C++ standard library, not to this repository, so the
  constructor takes it as a parameter. Its contract, for a comparator that is a strict weak
  ordering, is \<open>std_sort_post\<close>: the result is a rearrangement of the input in which no
  element is less than an earlier one. The order of equivalent elements is left open.
\<close>

type_synonym 'a sort_fn = "('a \<Rightarrow> 'a \<Rightarrow> bool) \<Rightarrow> 'a list \<Rightarrow> 'a list"

definition std_sort_post :: "('a \<Rightarrow> 'a \<Rightarrow> bool) \<Rightarrow> 'a list \<Rightarrow> 'a list \<Rightarrow> bool" where
  "std_sort_post cmp xs ys \<longleftrightarrow> mset ys = mset xs \<and> sorted_wrt (\<lambda>a b. \<not> cmp b a) ys"

text \<open>
  A sorting function that meets the contract: an insertion sort that puts an element
  before the elements equivalent to it, so that it is stable.
\<close>

fun insert_before :: "('a \<Rightarrow> 'a \<Rightarrow> bool) \<Rightarrow> 'a \<Rightarrow> 'a list \<Rightarrow> 'a list" where
  "insert_before cmp x [] = [x]"
| "insert_before cmp x (y # ys) =
     (if cmp y x then y # insert_before cmp x ys else x # y # ys)"

definition stable_insertion_sort :: "'a sort_fn" where
  "stable_insertion_sort cmp xs = foldr (insert_before cmp) xs []"

subsection \<open>The \<^verbatim>\<open>std::sort\<close> of GNU libstdc++\<close>

text \<open>
  How \<^verbatim>\<open>std::sort\<close> orders equal keys is decided by the standard library the header
  is compiled against. This is the algorithm of GNU libstdc++
  (\<^verbatim>\<open>bits/stl_algo.h\<close>): an introsort that partitions ranges of more than 16 elements
  around a median of three and finishes with an insertion sort. The vector is a list and
  iterators are positions in it. A result \<open>None\<close> stands for an execution the model does
  not follow: a read outside the vector (the unguarded loops have no bounds check and rely
  on a sentinel, which a strict weak ordering provides), or the heap-sort fallback that
  the library takes when \<^verbatim>\<open>2 * lg n\<close> rounds of partitioning did not suffice.
\<close>

definition iter_swap :: "'a list \<Rightarrow> nat \<Rightarrow> nat \<Rightarrow> 'a list" where
  "iter_swap a i j = a[i := a ! j, j := a ! i]"

text \<open>
  \<^verbatim>\<open>__unguarded_linear_insert(last, comp)\<close>: the value \<open>v\<close> taken from position
  \<^verbatim>\<open>last\<close> moves down past every element it is less than. The argument is the
  position of the hole; at position 0 the next read would be before the vector.
\<close>

fun unguarded_linear_insert :: "('a \<Rightarrow> 'a \<Rightarrow> bool) \<Rightarrow> 'a \<Rightarrow> 'a list \<Rightarrow> nat \<Rightarrow> 'a list option" where
  "unguarded_linear_insert cmp v a 0 = None"
| "unguarded_linear_insert cmp v a (Suc k) =
     (if cmp v (a ! k) then unguarded_linear_insert cmp v (a[Suc k := a ! k]) k
      else Some (a[Suc k := v]))"

text \<open>
  \<^verbatim>\<open>__insertion_sort(first, last, comp)\<close>, the loop from position \<open>i\<close> on. An
  element less than the one at \<^verbatim>\<open>first\<close> goes to the front and the elements before
  it move up by one (\<^verbatim>\<open>std::move_backward\<close>); any other element is inserted by the
  unguarded loop.
\<close>

function insertion_sort_loop ::
  "('a \<Rightarrow> 'a \<Rightarrow> bool) \<Rightarrow> 'a list \<Rightarrow> nat \<Rightarrow> nat \<Rightarrow> nat \<Rightarrow> 'a list option" where
  "insertion_sort_loop cmp a first lst i =
     (if i < lst then
        (case (if cmp (a ! i) (a ! first)
               then Some (take first a @ [a ! i] @ take (i - first) (drop first a) @ drop (Suc i) a)
               else unguarded_linear_insert cmp (a ! i) a i) of
           None \<Rightarrow> None
         | Some a' \<Rightarrow> insertion_sort_loop cmp a' first lst (Suc i))
      else Some a)"
  by pat_completeness auto
termination
  by (relation "measure (\<lambda>(cmp, a, first, lst, i). lst - i)") auto

declare insertion_sort_loop.simps [simp del]

definition insertion_sort ::
  "('a \<Rightarrow> 'a \<Rightarrow> bool) \<Rightarrow> 'a list \<Rightarrow> nat \<Rightarrow> nat \<Rightarrow> 'a list option" where
  "insertion_sort cmp a first lst =
     (if first = lst then Some a else insertion_sort_loop cmp a first lst (Suc first))"

text \<open>\<^verbatim>\<open>__unguarded_insertion_sort(first, last, comp)\<close>, the loop from position \<open>i\<close> on.\<close>

function unguarded_insertion_sort ::
  "('a \<Rightarrow> 'a \<Rightarrow> bool) \<Rightarrow> 'a list \<Rightarrow> nat \<Rightarrow> nat \<Rightarrow> 'a list option" where
  "unguarded_insertion_sort cmp a i lst =
     (if i < lst then
        (case unguarded_linear_insert cmp (a ! i) a i of
           None \<Rightarrow> None
         | Some a' \<Rightarrow> unguarded_insertion_sort cmp a' (Suc i) lst)
      else Some a)"
  by pat_completeness auto
termination
  by (relation "measure (\<lambda>(cmp, a, i, lst). lst - i)") auto

declare unguarded_insertion_sort.simps [simp del]

text \<open>\<^verbatim>\<open>__final_insertion_sort(first, last, comp)\<close>, with \<^verbatim>\<open>_S_threshold = 16\<close>.\<close>

definition final_insertion_sort ::
  "('a \<Rightarrow> 'a \<Rightarrow> bool) \<Rightarrow> 'a list \<Rightarrow> nat \<Rightarrow> nat \<Rightarrow> 'a list option" where
  "final_insertion_sort cmp a first lst =
     (if lst - first > 16 then
        (case insertion_sort cmp a first (first + 16) of
           None \<Rightarrow> None
         | Some a' \<Rightarrow> unguarded_insertion_sort cmp a' (first + 16) lst)
      else insertion_sort cmp a first lst)"

text \<open>
  \<^verbatim>\<open>__move_median_to_first(result, a, b, c, comp)\<close> swaps the median of the elements
  at three positions to the position \<^verbatim>\<open>result\<close>.
\<close>

definition move_median_to_first ::
  "('a \<Rightarrow> 'a \<Rightarrow> bool) \<Rightarrow> 'a list \<Rightarrow> nat \<Rightarrow> nat \<Rightarrow> nat \<Rightarrow> nat \<Rightarrow> 'a list" where
  "move_median_to_first cmp a result x y z =
     (if cmp (a ! x) (a ! y) then
        (if cmp (a ! y) (a ! z) then iter_swap a result y
         else if cmp (a ! x) (a ! z) then iter_swap a result z
         else iter_swap a result x)
      else if cmp (a ! x) (a ! z) then iter_swap a result x
      else if cmp (a ! y) (a ! z) then iter_swap a result z
      else iter_swap a result y)"

text \<open>
  The two inner loops of \<^verbatim>\<open>__unguarded_partition\<close>:
  \<^verbatim>\<open>while (comp(first, pivot)) ++first\<close> and
  \<^verbatim>\<open>while (comp(pivot, last)) --last\<close>.
\<close>

function scan_up :: "('a \<Rightarrow> 'a \<Rightarrow> bool) \<Rightarrow> 'a list \<Rightarrow> nat \<Rightarrow> nat \<Rightarrow> nat option" where
  "scan_up cmp a pivot first =
     (if length a \<le> first then None
      else if cmp (a ! first) (a ! pivot) then scan_up cmp a pivot (Suc first)
      else Some first)"
  by pat_completeness auto
termination
  by (relation "measure (\<lambda>(cmp, a, pivot, first). length a - first)") auto

declare scan_up.simps [simp del]

fun scan_down :: "('a \<Rightarrow> 'a \<Rightarrow> bool) \<Rightarrow> 'a list \<Rightarrow> nat \<Rightarrow> nat \<Rightarrow> nat option" where
  "scan_down cmp a pivot 0 = (if cmp (a ! pivot) (a ! 0) then None else Some 0)"
| "scan_down cmp a pivot (Suc k) =
     (if cmp (a ! pivot) (a ! Suc k) then scan_down cmp a pivot k else Some (Suc k))"

text \<open>\<^verbatim>\<open>__unguarded_partition(first, last, pivot, comp)\<close>; it returns the vector and the cut.\<close>

function unguarded_partition ::
  "('a \<Rightarrow> 'a \<Rightarrow> bool) \<Rightarrow> 'a list \<Rightarrow> nat \<Rightarrow> nat \<Rightarrow> nat \<Rightarrow> ('a list \<times> nat) option" where
  "unguarded_partition cmp a first lst pivot =
     (case scan_up cmp a pivot first of
        None \<Rightarrow> None
      | Some f \<Rightarrow>
          if lst = 0 then None
          else
            (case scan_down cmp a pivot (lst - 1) of
               None \<Rightarrow> None
             | Some l \<Rightarrow>
                 if \<not> f < l then Some (a, f)
                 else unguarded_partition cmp (iter_swap a f l) (Suc f) l pivot))"
  by pat_completeness auto
termination
proof (relation "measure (\<lambda>(cmp, a, first, lst, pivot). lst)")
  show "wf (measure (\<lambda>(cmp, a, first, lst, pivot). lst))" by simp
next
  fix cmp :: "'a \<Rightarrow> 'a \<Rightarrow> bool" and a first lst pivot f l
  assume "lst \<noteq> 0" and down: "scan_down cmp a pivot (lst - 1) = Some l"
  have "l \<le> k" if "scan_down cmp a pivot k = Some l" for k
    using that by (induction k) (auto split: if_splits)
  with down have "l \<le> lst - 1" by simp
  with \<open>lst \<noteq> 0\<close>
  show "((cmp, iter_swap a f l, Suc f, l, pivot), (cmp, a, first, lst, pivot))
        \<in> measure (\<lambda>(cmp, a, first, lst, pivot). lst)"
    by simp
qed

declare unguarded_partition.simps [simp del]

text \<open>\<^verbatim>\<open>__unguarded_partition_pivot(first, last, comp)\<close>.\<close>

definition unguarded_partition_pivot ::
  "('a \<Rightarrow> 'a \<Rightarrow> bool) \<Rightarrow> 'a list \<Rightarrow> nat \<Rightarrow> nat \<Rightarrow> ('a list \<times> nat) option" where
  "unguarded_partition_pivot cmp a first lst =
     (let mid = first + (lst - first) div 2
      in unguarded_partition cmp
           (move_median_to_first cmp a first (first + 1) mid (lst - 1))
           (first + 1) lst first)"

text \<open>
  \<^verbatim>\<open>__introsort_loop(first, last, depth_limit, comp)\<close>: each round of the
  \<^verbatim>\<open>while\<close> loop partitions, sorts the upper part by a recursive call and goes on
  with the lower part and a depth limit one less.
\<close>

fun introsort_loop ::
  "('a \<Rightarrow> 'a \<Rightarrow> bool) \<Rightarrow> 'a list \<Rightarrow> nat \<Rightarrow> nat \<Rightarrow> nat \<Rightarrow> 'a list option" where
  "introsort_loop cmp a first lst 0 = (if lst - first > 16 then None else Some a)"
| "introsort_loop cmp a first lst (Suc depth_limit) =
     (if lst - first > 16 then
        (case unguarded_partition_pivot cmp a first lst of
           None \<Rightarrow> None
         | Some (a', cutp) \<Rightarrow>
             (case introsort_loop cmp a' cutp lst depth_limit of
                None \<Rightarrow> None
              | Some a'' \<Rightarrow> introsort_loop cmp a'' first cutp depth_limit))
      else Some a)"

text \<open>\<^verbatim>\<open>std::__lg\<close>, the binary logarithm rounded down.\<close>

function lg :: "nat \<Rightarrow> nat" where
  "lg n = (if n < 2 then 0 else Suc (lg (n div 2)))"
  by pat_completeness auto
termination
  by (relation "measure (\<lambda>n. n)") auto

declare lg.simps [simp del]

text \<open>\<^verbatim>\<open>std::__sort(first, last, comp)\<close> on the whole vector.\<close>

definition libstdcxx_sort_run :: "('a \<Rightarrow> 'a \<Rightarrow> bool) \<Rightarrow> 'a list \<Rightarrow> 'a list option" where
  "libstdcxx_sort_run cmp a =
     (if a = [] then Some a
      else
        (case introsort_loop cmp a 0 (length a) (lg (length a) * 2) of
           None \<Rightarrow> None
         | Some a' \<Rightarrow> final_insertion_sort cmp a' 0 (length a)))"

text \<open>
  The same as a sorting function for the constructor. Where the model above has no result
  the value is left unspecified; the statements below about this function are for inputs
  on which \<open>libstdcxx_sort_run\<close> has a result, and say so.
\<close>

definition libstdcxx_sort :: "'a sort_fn" where
  "libstdcxx_sort cmp a = the (libstdcxx_sort_run cmp a)"

subsection \<open>Grouping index: the constructor\<close>

text \<open>The comparator passed to \<^verbatim>\<open>std::sort\<close> (lines 117-119).\<close>

definition key_less :: "(nat \<Rightarrow> 'k::linorder) \<Rightarrow> nat \<Rightarrow> nat \<Rightarrow> bool" where
  "key_less vals a b \<longleftrightarrow> vals a < vals b"

text \<open>The loop of lines 112-114, \<^verbatim>\<open>ix[i] = i\<close>, started at \<open>i\<close>.\<close>

function iota_loop :: "nat \<Rightarrow> nat list \<Rightarrow> nat list" where
  "iota_loop i ixs = (if i < length ixs then iota_loop (Suc i) (ixs[i := i]) else ixs)"
  by pat_completeness auto
termination
  by (relation "measure (\<lambda>(i, ixs). length ixs - i)") auto

declare iota_loop.simps [simp del]

text \<open>
  The loop of lines 128-133, started at \<open>i\<close> with the current \<^verbatim>\<open>prev_i\<close> and
  \<^verbatim>\<open>group_start\<close>. \<open>ixs\<close> is the sorted \<^verbatim>\<open>ix\<close>.
\<close>

function group_loop :: "(nat \<Rightarrow> 'k) \<Rightarrow> nat list \<Rightarrow> nat \<Rightarrow> nat \<Rightarrow> nat list \<Rightarrow> nat list" where
  "group_loop vals ixs i prev_i gs =
     (if i < length ixs then
        (let prev_i' = (if vals (ixs ! prev_i) \<noteq> vals (ixs ! i) then i else prev_i)
         in group_loop vals ixs (Suc i) prev_i' (gs[i := ixs ! prev_i']))
      else gs)"
  by pat_completeness auto
termination
  by (relation "measure (\<lambda>(vals, ixs, i, prev_i, gs). length ixs - i)") auto

declare group_loop.simps [simp del]

record Index =
  ix :: "nat list"
  group_start :: "nat list"

text \<open>
  The constructor \<^verbatim>\<open>Index(size_t n, FUNC vals)\<close> (lines 110-134) for the default
  \<^verbatim>\<open>Int = std::uint32_t\<close>. Row ids and the counters \<^verbatim>\<open>i\<close>, \<^verbatim>\<open>prev_i\<close> are
  32-bit: for \<open>n \<ge> 2 ^ 32\<close> the counter of the first loop wraps to 0 before it can reach
  \<^verbatim>\<open>ix.size()\<close> and the constructor does not return, which is the result \<open>None\<close>;
  below that bound no counter wraps and natural numbers model them exactly. Both vectors
  start as \<open>n\<close> zeros. \<^verbatim>\<open>prev_i\<close> is initialised from \<^verbatim>\<open>group_start[0]\<close>, as in
  line 126.
\<close>

definition Index_ctor :: "nat sort_fn \<Rightarrow> nat \<Rightarrow> (nat \<Rightarrow> 'k::linorder) \<Rightarrow> Index option" where
  "Index_ctor std_sort n vals =
     (if (2 :: int) ^ 32 \<le> int n then None
      else
        let ixs = std_sort (key_less vals) (iota_loop 0 (replicate n 0));
            gs = replicate n 0
        in if ixs = [] then Some \<lparr>ix = ixs, group_start = gs\<rparr>
           else
             let gs = gs[0 := ixs ! 0];
                 prev_i = gs ! 0
             in Some \<lparr>ix = ixs, group_start = group_loop vals ixs 1 prev_i gs\<rparr>)"

text \<open>
  \<^verbatim>\<open>range_t\<close> (lines 92-108): the two iterators into \<^verbatim>\<open>ix\<close> are modelled by
  their positions. \<^verbatim>\<open>for_each\<close> visits the rows at the positions from \<^verbatim>\<open>b\<close> up to
  \<^verbatim>\<open>e\<close>, and \<^verbatim>\<open>size()\<close> is their distance.
\<close>

record range_t =
  group_head :: nat
  range_b :: nat
  range_e :: nat

definition range_rows :: "nat list \<Rightarrow> range_t \<Rightarrow> nat list" where
  "range_rows ixs r = map (\<lambda>p. ixs ! p) [range_b r..<range_e r]"

definition range_size :: "range_t \<Rightarrow> nat" where
  "range_size r = range_e r - range_b r"

text \<open>
  \<^verbatim>\<open>merge\<close> (lines 136-152). The callback \<^verbatim>\<open>f\<close> acts on the caller's state
  \<open>env\<close>; the state of the call is the index \<^verbatim>\<open>*this\<close> together with \<open>env\<close>.
  The loop returns the last \<^verbatim>\<open>prev_i\<close> and the state. \<^verbatim>\<open>merge\<close> returns the copy
  \<^verbatim>\<open>*this\<close>, followed by the state after the call.
\<close>

function merge_loop ::
  "(range_t \<Rightarrow> 's \<Rightarrow> 's) \<Rightarrow> nat \<Rightarrow> nat \<Rightarrow> Index \<times> 's \<Rightarrow> nat \<times> Index \<times> 's" where
  "merge_loop f i prev_i (this, env) =
     (if i < length (ix this) then
        (if group_start this ! i \<noteq> group_start this ! prev_i
         then merge_loop f (Suc i) i
                (this, f \<lparr>group_head = group_start this ! prev_i,
                          range_b = prev_i, range_e = i\<rparr> env)
         else merge_loop f (Suc i) prev_i (this, env))
      else (prev_i, this, env))"
  by pat_completeness auto
termination
  by (relation "measure (\<lambda>(f, i, prev_i, this, env). length (ix this) - i)") auto

declare merge_loop.simps [simp del]

definition merge :: "(range_t \<Rightarrow> 's \<Rightarrow> 's) \<Rightarrow> Index \<times> 's \<Rightarrow> Index \<times> Index \<times> 's" where
  "merge f st =
     (case merge_loop f 0 0 st of
        (prev_i, this, env) \<Rightarrow>
          (this, this,
           if length (group_start this) > 0
           then f \<lparr>group_head = group_start this ! prev_i,
                   range_b = prev_i, range_e = length (ix this)\<rparr> env
           else env))"

text \<open>A callback that records the ranges it is given, in the order of the calls.\<close>

definition record_range :: "range_t \<Rightarrow> range_t list \<Rightarrow> range_t list" where
  "record_range r calls = calls @ [r]"

definition merge_calls :: "Index \<Rightarrow> range_t list" where
  "merge_calls this = snd (snd (merge record_range (this, [])))"

text \<open>
  \<^verbatim>\<open>indexes\<close> (lines 154-160): \<^verbatim>\<open>std::unique\<close> followed by \<^verbatim>\<open>erase\<close> keeps the
  first element of every run of equal neighbours.
\<close>

definition indexes :: "Index \<Rightarrow> nat list" where
  "indexes this = remdups_adj (group_start this)"

text \<open>
  Ranges that follow each other from position \<open>a\<close> to position \<open>z\<close>, none of them
  empty.
\<close>

fun chain :: "nat \<Rightarrow> range_t list \<Rightarrow> nat \<Rightarrow> bool" where
  "chain a [] z \<longleftrightarrow> a = z"
| "chain a (r # rs) z \<longleftrightarrow> range_b r = a \<and> a < range_e r \<and> chain (range_e r) rs z"

text \<open>
  Position \<open>s\<close> is the first sorted position of the group that position \<open>j\<close> belongs
  to: it is not after \<open>j\<close>, its row has the key of the row at \<open>j\<close>, and no earlier
  position has that key.
\<close>

definition group_first :: "(nat \<Rightarrow> 'k) \<Rightarrow> nat list \<Rightarrow> nat \<Rightarrow> nat \<Rightarrow> bool" where
  "group_first vals ixs j s \<longleftrightarrow>
     s \<le> j \<and> vals (ixs ! s) = vals (ixs ! j) \<and> (\<forall>k. k < s \<longrightarrow> vals (ixs ! k) \<noteq> vals (ixs ! j))"

text \<open>The key column of scenario 2 of the specification: the values 3, 1, 3, 2, 1.\<close>

definition example_keys :: "nat \<Rightarrow> nat" where
  "example_keys r = [3, 1, 3, 2, 1] ! r"

text \<open>The same keys for the rows 0 to 4, and other values behind them.\<close>

definition example_keys_more :: "nat \<Rightarrow> nat" where
  "example_keys_more r = [3, 1, 3, 2, 1, 0, 7] ! r"

text \<open>All rows have the same key.\<close>

definition tie_keys :: "nat \<Rightarrow> nat" where
  "tie_keys r = 5"

section \<open>Properties\<close>

subsection \<open>transform\<close>

lemma length_transform_loop: "length (transform_loop f s i t) = length t"
proof (induction f s i t rule: transform_loop.induct)
  case (1 f s i t)
  show ?case
  proof (cases "i < length t")
    case True
    with 1 show ?thesis by (subst transform_loop.simps) simp
  next
    case False
    then show ?thesis by (subst transform_loop.simps) simp
  qed
qed

lemma nth_transform_loop:
  "k < length t \<Longrightarrow>
   transform_loop f s i t ! k = (if i \<le> k then f (t ! k) (s ! k) else t ! k)"
proof (induction f s i t rule: transform_loop.induct)
  case (1 f s i t)
  show ?case
  proof (cases "i < length t")
    case True
    have "transform_loop f s i t = transform_loop f s (Suc i) (t[i := f (t ! i) (s ! i)])"
      using True by (subst transform_loop.simps) simp
    moreover have "transform_loop f s (Suc i) (t[i := f (t ! i) (s ! i)]) ! k =
        (if Suc i \<le> k then f (t[i := f (t ! i) (s ! i)] ! k) (s ! k)
         else t[i := f (t ! i) (s ! i)] ! k)"
      using 1 True by simp
    ultimately show ?thesis
      using True 1(2) by (cases "k = i") (auto simp: nth_list_update)
  next
    case False
    then show ?thesis using 1(2) by (subst transform_loop.simps) simp
  qed
qed

lemma length_transform_copy_loop: "length (transform_copy_loop f t s i ret) = length ret"
proof (induction f t s i ret rule: transform_copy_loop.induct)
  case (1 f t s i ret)
  show ?case
  proof (cases "i < length t")
    case True
    with 1 show ?thesis by (subst transform_copy_loop.simps) simp
  next
    case False
    then show ?thesis by (subst transform_copy_loop.simps) simp
  qed
qed

lemma nth_transform_copy_loop:
  "k < length ret \<Longrightarrow> length ret = length t \<Longrightarrow>
   transform_copy_loop f t s i ret ! k = (if i \<le> k then f (t ! k) (s ! k) else ret ! k)"
proof (induction f t s i ret rule: transform_copy_loop.induct)
  case (1 f t s i ret)
  show ?case
  proof (cases "i < length t")
    case True
    have "transform_copy_loop f t s i ret =
          transform_copy_loop f t s (Suc i) (ret[i := f (t ! i) (s ! i)])"
      using True by (subst transform_copy_loop.simps) simp
    moreover have "transform_copy_loop f t s (Suc i) (ret[i := f (t ! i) (s ! i)]) ! k =
        (if Suc i \<le> k then f (t ! k) (s ! k) else ret[i := f (t ! i) (s ! i)] ! k)"
      using 1 True by simp
    ultimately show ?thesis
      using True 1(2,3) by (cases "k = i") (auto simp: nth_list_update)
  next
    case False
    then show ?thesis using 1(2,3) by (subst transform_copy_loop.simps) simp
  qed
qed

text \<open>
  C8. When the two sequences differ in length, both overloads of the two-sequence
  \<^verbatim>\<open>transform\<close> throw the size-mismatch error whose message holds the decimal
  renderings of both lengths, and the destination \<open>t\<close> of the mutating overload is what it
  was before the call (the check precedes every write). When the lengths are equal, no
  error is raised, the length is kept, and position \<open>i\<close> of the result is
  \<open>f (t ! i) (s ! i)\<close> for every \<open>i\<close>.
\<close>

theorem transform_size_check:
  "(length t \<noteq> length s \<longrightarrow>
      transform t s f =
        (Some (runtime_error (''Column size mismatch in nanoframe::transform: ''
                 @ to_string (length t) @ '' != '' @ to_string (length s))), t)
    \<and> transform_const t s f =
        Inl (runtime_error (''Column size mismatch in nanoframe::transform: ''
                 @ to_string (length t) @ '' != '' @ to_string (length s))))
 \<and> (length t = length s \<longrightarrow>
      fst (transform t s f) = None
    \<and> length (snd (transform t s f)) = length t
    \<and> (\<forall>i<length t. snd (transform t s f) ! i = f (t ! i) (s ! i))
    \<and> (\<exists>ret. transform_const t s f = Inr ret \<and> length ret = length t
           \<and> (\<forall>i<length t. ret ! i = f (t ! i) (s ! i))))"
  by (simp add: transform_def transform_const_def size_mismatch_def length_transform_loop
      nth_transform_loop length_transform_copy_loop nth_transform_copy_loop)

theorem transform_size_check_witness:
  "transform [1, 2 :: int] [10, 20, 30 :: int] (+) =
     (Some (runtime_error ''Column size mismatch in nanoframe::transform: 2 != 3''), [1, 2])
   \<and> transform_const [1, 2 :: int] [10, 20, 30 :: int] (+) =
     Inl (runtime_error ''Column size mismatch in nanoframe::transform: 2 != 3'')
   \<and> fst (transform [1, 2, 3 :: int] [10, 20, 30 :: int] (+)) = None
   \<and> snd (transform [1, 2, 3 :: int] [10, 20, 30 :: int] (+)) ! 0 = 11
   \<and> snd (transform [1, 2, 3 :: int] [10, 20, 30 :: int] (+)) ! 1 = 22
   \<and> snd (transform [1, 2, 3 :: int] [10, 20, 30 :: int] (+)) ! 2 = 33"
  using transform_size_check [of "[1, 2 :: int]" "[10, 20, 30 :: int]" "(+)"]
        transform_size_check [of "[1, 2, 3 :: int]" "[10, 20, 30 :: int]" "(+)"]
  by (simp add: to_string.simps digit_char_def)

subsection \<open>filter\<close>

lemma filter_loop_map:
  "\<forall>i\<in>set idxs. i < length t \<Longrightarrow>
   filter_loop t idxs ret = Some (ret @ map (\<lambda>i. t ! i) idxs)"
  by (induction idxs arbitrary: ret) auto

text \<open>
  C9. When every index of the index sequence is below the column's length, \<^verbatim>\<open>filter\<close>
  returns a sequence as long as the index sequence whose position \<open>k\<close> holds
  \<open>t ! (idxs ! k)\<close>; with an empty index sequence it returns the empty sequence.
\<close>

theorem filter_gather:
  "\<forall>i\<in>set idxs. i < length t \<Longrightarrow>
   (\<exists>ret. filter_col t idxs = Some ret \<and> length ret = length idxs
      \<and> (\<forall>k<length idxs. ret ! k = t ! (idxs ! k)))
   \<and> filter_col t [] = Some []"
  by (simp add: filter_col_def filter_loop_map)

theorem filter_gather_witness:
  "filter_col [''a'', ''b'', ''c''] [2, 0] = Some [''c'', ''a'']
   \<and> filter_col [''a'', ''b'', ''c''] [] = Some []"
  using filter_gather [of "[2, 0]" "[''a'', ''b'', ''c'']"]
  by (simp add: filter_col_def)

subsection \<open>Interning\<close>

lemma update_new: "map_of al k = None \<Longrightarrow> AList.update k v al = al @ [(k, v)]"
  by (induction al) (auto split: if_splits)

lemma Symbol_of_string_hit:
  "map_of (st tg) s = Some c \<Longrightarrow> Symbol_of_string tg s st = (\<lparr>val = c\<rparr>, st)"
  by (simp add: Symbol_of_string_def Let_def)

lemma Symbol_of_string_miss:
  "map_of (st tg) s = None \<Longrightarrow>
   Symbol_of_string tg s st =
     (\<lparr>val = word_of_nat (length (st tg) + 1)\<rparr>,
      st(tg := st tg @ [(s, word_of_nat (length (st tg) + 1))]))"
  by (simp add: Symbol_of_string_def Let_def update_new map_add_def del: of_nat_Suc of_nat_add)

lemma table_inv_Nil: "table_inv []"
  by (simp add: table_inv_def)

lemma table_inv_snoc:
  "table_inv tbl \<Longrightarrow> map_of tbl s = None \<Longrightarrow>
   table_inv (tbl @ [(s, word_of_nat (length tbl + 1))])"
  by (auto simp: table_inv_def map_of_eq_None_iff)

lemma table_inv_Symbol_of_string:
  "table_inv (st tg) \<Longrightarrow> table_inv (snd (Symbol_of_string tg s st) tg)"
proof (cases "map_of (st tg) s")
  case None
  assume "table_inv (st tg)"
  with None show ?thesis
    using table_inv_snoc [of "st tg" s] by (simp add: Symbol_of_string_miss)
next
  case (Some c)
  assume "table_inv (st tg)"
  with Some show ?thesis by (simp add: Symbol_of_string_hit)
qed

lemma table_inv_other_tag:
  "table_inv (st tg') \<Longrightarrow> table_inv (snd (Symbol_of_string tg s st) tg')"
  by (cases "tg' = tg") (simp_all add: table_inv_Symbol_of_string, simp add: Symbol_of_string_def Let_def)

lemma table_inv_no_tables: "table_inv (no_tables tg)"
  by (simp add: no_tables_def table_inv_Nil)

lemma table_inv_intern_all:
  "table_inv (st tg) \<Longrightarrow> table_inv (intern_all tg ss st tg)"
  by (induction ss arbitrary: st) (auto simp: table_inv_Symbol_of_string)

lemma table_inv_nth:
  assumes "table_inv tbl" "k < length tbl"
  shows "snd (tbl ! k) = word_of_nat (k + 1)"
proof -
  have "snd (tbl ! k) = map snd tbl ! k" using assms by simp
  also have "\<dots> = map word_of_nat [1..<Suc (length tbl)] ! k"
    using assms by (simp add: table_inv_def)
  also have "\<dots> = word_of_nat (k + 1)" using assms by (simp del: upt_Suc)
  finally show ?thesis .
qed

lemma unat_code: "n < 65536 \<Longrightarrow> unat (word_of_nat n :: 16 word) = n"
  by (simp add: unat_of_nat)

lemma table_inv_lookup:
  assumes "table_inv tbl" "map_of tbl s = Some c"
  shows "\<exists>k<length tbl. tbl ! k = (s, c) \<and> c = word_of_nat (k + 1)"
proof -
  from assms(2) have "(s, c) \<in> set tbl" by (rule map_of_SomeD)
  then obtain k where k: "k < length tbl" "tbl ! k = (s, c)"
    by (auto simp: in_set_conv_nth)
  with table_inv_nth [OF assms(1) k(1)] show ?thesis by (auto simp del: of_nat_Suc of_nat_add)
qed

lemma table_inv_inj:
  assumes "table_inv tbl" "length tbl \<le> 65535"
    "map_of tbl a = Some c" "map_of tbl b = Some c"
  shows "a = b"
proof -
  obtain i where i: "i < length tbl" "tbl ! i = (a, c)" "c = word_of_nat (i + 1)"
    using table_inv_lookup [OF assms(1,3)] by blast
  obtain j where j: "j < length tbl" "tbl ! j = (b, c)" "c = word_of_nat (j + 1)"
    using table_inv_lookup [OF assms(1,4)] by blast
  have "unat c = i + 1" using i assms(2) by (simp add: unat_code del: of_nat_Suc of_nat_add)
  moreover have "unat c = j + 1" using j assms(2) by (simp add: unat_code del: of_nat_Suc of_nat_add)
  ultimately have "i = j" by simp
  with i j show ?thesis by simp
qed

lemma lookup_after_intern:
  "map_of (snd (Symbol_of_string tg s st) tg) s = Some (val (fst (Symbol_of_string tg s st)))"
proof (cases "map_of (st tg) s")
  case None
  then show ?thesis by (simp add: Symbol_of_string_miss map_add_def del: of_nat_Suc of_nat_add)
next
  case (Some c)
  then show ?thesis by (simp add: Symbol_of_string_hit)
qed

lemma lookup_kept_by_intern:
  "map_of (st tg) x = Some c \<Longrightarrow> map_of (snd (Symbol_of_string tg s st) tg) x = Some c"
proof (cases "map_of (st tg) s")
  case None
  assume "map_of (st tg) x = Some c"
  with None show ?thesis
    by (simp add: Symbol_of_string_miss map_add_def del: of_nat_Suc of_nat_add)
next
  case (Some d)
  assume "map_of (st tg) x = Some c"
  with Some show ?thesis by (simp add: Symbol_of_string_hit)
qed

lemma lookup_kept_by_intern_all:
  "map_of (st tg) x = Some c \<Longrightarrow> map_of (intern_all tg ss st tg) x = Some c"
  by (induction ss arbitrary: st) (auto simp: lookup_kept_by_intern)

text \<open>
  C5 (amended). Let the table of tag \<open>tg\<close> be one the constructor has built
  (\<open>table_inv\<close>) and hold fewer than 65535 entries. Interning \<open>s\<close> returns the stored
  code and leaves the whole state as it is when \<open>s\<close> is in the table; otherwise it
  returns the code \<open>size + 1\<close>, appends this one entry to the table of \<open>tg\<close> and to no
  other, and the new code is above every code assigned before. The entry inserted
  \<open>k\<close>-th (from 0) holds the code \<open>k + 1\<close>, so codes follow first-seen order from 1.
  Interning \<open>s\<close> a second time returns the same code and changes nothing.
\<close>

theorem intern_first_seen_order:
  assumes "table_inv (st tg)" and "length (st tg) < 65535"
  shows "(\<forall>c. map_of (st tg) s = Some c \<longrightarrow> Symbol_of_string tg s st = (\<lparr>val = c\<rparr>, st))
    \<and> (map_of (st tg) s = None \<longrightarrow>
          unat (val (fst (Symbol_of_string tg s st))) = length (st tg) + 1
        \<and> snd (Symbol_of_string tg s st) =
            st(tg := st tg @ [(s, val (fst (Symbol_of_string tg s st)))])
        \<and> (\<forall>e\<in>set (st tg). snd e < val (fst (Symbol_of_string tg s st))))
    \<and> (\<forall>k<length (st tg). unat (snd (st tg ! k)) = k + 1)
    \<and> Symbol_of_string tg s (snd (Symbol_of_string tg s st)) =
        (fst (Symbol_of_string tg s st), snd (Symbol_of_string tg s st))"
proof -
  have nth: "unat (snd (st tg ! k)) = k + 1" if "k < length (st tg)" for k
    using that assms table_inv_nth [OF assms(1) that]
    by (simp add: unat_code del: of_nat_Suc of_nat_add)
  have miss: "unat (val (fst (Symbol_of_string tg s st))) = length (st tg) + 1
        \<and> snd (Symbol_of_string tg s st) =
            st(tg := st tg @ [(s, val (fst (Symbol_of_string tg s st)))])
        \<and> (\<forall>e\<in>set (st tg). snd e < val (fst (Symbol_of_string tg s st)))"
    if none: "map_of (st tg) s = None"
  proof -
    have v: "unat (val (fst (Symbol_of_string tg s st))) = length (st tg) + 1"
      using none assms(2) by (simp add: Symbol_of_string_miss unat_code del: of_nat_Suc of_nat_add)
    have "snd e < val (fst (Symbol_of_string tg s st))" if "e \<in> set (st tg)" for e
    proof -
      from that obtain k where k: "k < length (st tg)" "st tg ! k = e"
        by (auto simp: in_set_conv_nth)
      then have "unat (snd e) = k + 1" using nth by auto
      with v k show ?thesis by (simp add: word_less_nat_alt)
    qed
    with v none show ?thesis by (simp add: Symbol_of_string_miss del: of_nat_Suc of_nat_add)
  qed
  have again: "Symbol_of_string tg s (snd (Symbol_of_string tg s st)) =
        (fst (Symbol_of_string tg s st), snd (Symbol_of_string tg s st))"
    using Symbol_of_string_hit [of "snd (Symbol_of_string tg s st)" tg s, OF lookup_after_intern]
    by (simp add: prod_eq_iff)
  show ?thesis
    using nth miss again by (simp add: Symbol_of_string_hit)
qed

text \<open>
  C6 (amended). Start from a table the constructor has built. Interning \<open>s1\<close>, then
  any strings \<open>ss\<close>, then \<open>s2\<close>, all under the same tag, returns equal codes for
  \<open>s1\<close> and \<open>s2\<close> exactly when \<open>s1 = s2\<close>, as long as the table holds at most
  65535 entries afterwards.
\<close>

theorem intern_injective:
  assumes "table_inv (st tg)"
    and "length (snd (Symbol_of_string tg s2
                  (intern_all tg ss (snd (Symbol_of_string tg s1 st)))) tg) \<le> 65535"
  shows "(val (fst (Symbol_of_string tg s1 st)) =
          val (fst (Symbol_of_string tg s2 (intern_all tg ss (snd (Symbol_of_string tg s1 st))))))
         = (s1 = s2)"
proof -
  let ?st1 = "snd (Symbol_of_string tg s1 st)"
  let ?st2 = "intern_all tg ss ?st1"
  let ?st3 = "snd (Symbol_of_string tg s2 ?st2)"
  let ?v1 = "val (fst (Symbol_of_string tg s1 st))"
  let ?v2 = "val (fst (Symbol_of_string tg s2 ?st2))"
  have inv: "table_inv (?st3 tg)"
    using assms(1) by (simp add: table_inv_Symbol_of_string table_inv_intern_all)
  have "map_of (?st2 tg) s1 = Some ?v1"
    by (rule lookup_kept_by_intern_all) (rule lookup_after_intern)
  then have l1: "map_of (?st3 tg) s1 = Some ?v1"
    by (rule lookup_kept_by_intern)
  have l2: "map_of (?st3 tg) s2 = Some ?v2"
    by (rule lookup_after_intern)
  show ?thesis
  proof
    assume "?v1 = ?v2"
    with l1 l2 table_inv_inj [OF inv assms(2), of s1 ?v1 s2] show "s1 = s2" by simp
  next
    assume "s1 = s2"
    with l1 l2 show "?v1 = ?v2" by simp
  qed
qed

text \<open>
  C7 (amended). Constructing a \<^verbatim>\<open>Symbol\<close> from the null marker yields the code 0 and
  leaves the interning state as it is; \<^verbatim>\<open>null()\<close> holds exactly when the code is 0 and
  \<^verbatim>\<open>ok()\<close> is its negation; interning a string into a table the constructor has built
  yields a code other than 0, as long as the table holds at most 65535 entries afterwards.
\<close>

theorem null_code_reserved:
  assumes "table_inv (st tg)"
    and "length (snd (Symbol_of_string tg s st) tg) \<le> 65535"
  shows "Symbol_of_null st = (\<lparr>val = 0\<rparr>, st)
    \<and> (Symbol_null x \<longleftrightarrow> val x = 0)
    \<and> (Symbol_ok x \<longleftrightarrow> \<not> Symbol_null x)
    \<and> val (fst (Symbol_of_string tg s st)) \<noteq> 0
    \<and> \<not> Symbol_null (fst (Symbol_of_string tg s st))"
proof -
  let ?st1 = "snd (Symbol_of_string tg s st)"
  let ?v = "val (fst (Symbol_of_string tg s st))"
  have inv: "table_inv (?st1 tg)"
    using assms(1) by (simp add: table_inv_Symbol_of_string)
  obtain k where k: "k < length (?st1 tg)" "?v = word_of_nat (k + 1)"
    using table_inv_lookup [OF inv lookup_after_intern] by blast
  then have "unat ?v = k + 1"
    using assms(2) by (simp add: unat_code del: of_nat_Suc of_nat_add)
  then have "?v \<noteq> 0" by auto
  then show ?thesis
    by (simp add: Symbol_of_null_def Symbol_null_def Symbol_ok_def)
qed

lemma intern_all_append:
  "intern_all tg (xs @ ys) st = intern_all tg ys (intern_all tg xs st)"
  by (induction xs arbitrary: st) auto

lemma a_name_inj: "a_name i = a_name j \<Longrightarrow> i = j"
proof -
  assume "a_name i = a_name j"
  then have "length (a_name i) = length (a_name j)" by simp
  then show ?thesis by (simp add: a_name_def)
qed

lemma a_table:
  "intern_all tg (a_names n) no_tables tg = map (\<lambda>k. (a_name k, word_of_nat k)) [1..<Suc n]"
proof (induction n)
  case 0
  then show ?case by (simp add: a_names_def no_tables_def)
next
  case (Suc n)
  let ?st = "intern_all tg (a_names n) no_tables"
  have split: "a_names (Suc n) = a_names n @ [a_name (Suc n)]"
    by (simp add: a_names_def)
  have len: "length (?st tg) = n" using Suc by simp
  have "fst ` set (?st tg) = a_name ` {1..<Suc n}"
    using Suc by (simp del: upt_Suc add: image_image)
  then have "a_name (Suc n) \<notin> fst ` set (?st tg)"
    by (auto dest!: a_name_inj)
  then have none: "map_of (?st tg) (a_name (Suc n)) = None"
    by (simp add: map_of_eq_None_iff)
  have "intern_all tg (a_names (Suc n)) no_tables tg =
        snd (Symbol_of_string tg (a_name (Suc n)) ?st) tg"
    by (simp add: split intern_all_append)
  also have "\<dots> = ?st tg @ [(a_name (Suc n), word_of_nat (Suc n))]"
    using none len by (simp add: Symbol_of_string_miss del: of_nat_Suc of_nat_add)
  finally show ?case using Suc by (simp del: of_nat_Suc of_nat_add)
qed

lemma a_table_miss:
  "set s \<noteq> {CHR ''a''} \<Longrightarrow> s \<noteq> [] \<Longrightarrow> map_of (intern_all tg (a_names n) no_tables tg) s = None"
  unfolding map_of_eq_None_iff a_table set_map image_image
  by (auto simp: a_name_def)

lemma b_miss: "map_of (intern_all tg (a_names n) no_tables tg) ''b'' = None"
  by (rule a_table_miss) simp_all

text \<open>
  C5 as stated fails once 65535 strings are interned under a tag: the table of
  \<open>full_tables\<close> holds 65535 entries, \<^verbatim>\<open>b\<close> is not among them, and interning it
  returns the code 0 (65536 converted to \<^verbatim>\<open>uint16_t\<close>), not \<open>size + 1\<close>.
\<close>

theorem intern_overflow_counterexample:
  "length (full_tables ''Color'') = 65535
   \<and> map_of (full_tables ''Color'') ''b'' = None
   \<and> val (fst (Symbol_of_string ''Color'' ''b'' full_tables)) = 0
   \<and> unat (val (fst (Symbol_of_string ''Color'' ''b'' full_tables)))
       \<noteq> length (full_tables ''Color'') + 1"
proof -
  have len: "length (full_tables ''Color'') = 65535"
    unfolding full_tables_def a_table by simp
  have none: "map_of (full_tables ''Color'') ''b'' = None"
    unfolding full_tables_def by (rule b_miss)
  have "val (fst (Symbol_of_string ''Color'' ''b'' full_tables)) = 0"
    using none len by (simp add: Symbol_of_string_miss)
  with len none show ?thesis by simp
qed

lemma a_table_hit:
  assumes "1 \<le> k" "k \<le> n"
  shows "map_of (intern_all tg (a_names n) no_tables tg) (a_name k) = Some (word_of_nat k)"
proof -
  have "table_inv (intern_all tg (a_names n) no_tables tg)"
    by (rule table_inv_intern_all) (simp add: no_tables_def table_inv_Nil)
  then have "distinct (map fst (intern_all tg (a_names n) no_tables tg))"
    by (simp add: table_inv_def)
  moreover have "(a_name k, word_of_nat k) \<in> set (intern_all tg (a_names n) no_tables tg)"
    unfolding a_table set_map set_upt by (rule image_eqI [where x = k]) (use assms in auto)
  ultimately show ?thesis by (rule map_of_is_SomeI)
qed

text \<open>
  C6 as stated fails after the 16-bit code wraps: with 65536 strings interned, the 65537th
  string \<^verbatim>\<open>b\<close> receives the code 1, which is the code of the first string \<^verbatim>\<open>a\<close>.
\<close>

theorem intern_collision_counterexample:
  "val (fst (Symbol_of_string ''Color'' ''a'' wrapped_tables)) =
   val (fst (Symbol_of_string ''Color'' ''b''
              (snd (Symbol_of_string ''Color'' ''a'' wrapped_tables))))
   \<and> ''a'' \<noteq> ''b''"
proof -
  have "map_of (wrapped_tables ''Color'') (a_name 1) = Some (word_of_nat 1)"
    unfolding wrapped_tables_def by (rule a_table_hit) simp_all
  then have hit: "map_of (wrapped_tables ''Color'') ''a'' = Some 1"
    by (simp add: a_name_def)
  have len: "length (wrapped_tables ''Color'') = 65536"
    unfolding wrapped_tables_def a_table by simp
  have none: "map_of (wrapped_tables ''Color'') ''b'' = None"
    unfolding wrapped_tables_def by (rule b_miss)
  have a: "Symbol_of_string ''Color'' ''a'' wrapped_tables = (\<lparr>val = 1\<rparr>, wrapped_tables)"
    using hit by (rule Symbol_of_string_hit)
  have "val (fst (Symbol_of_string ''Color'' ''b'' wrapped_tables)) = 1"
    using none len by (simp add: Symbol_of_string_miss)
  with a show ?thesis by simp
qed

text \<open>
  C7 as stated fails at the 65536th distinct string of a tag: interning \<^verbatim>\<open>blue\<close> into
  the table of \<open>full_tables\<close> yields a \<^verbatim>\<open>Symbol\<close> whose \<^verbatim>\<open>null()\<close> is true.
\<close>

theorem null_code_counterexample:
  "map_of (full_tables ''Color'') ''blue'' = None
   \<and> Symbol_null (fst (Symbol_of_string ''Color'' ''blue'' full_tables))"
proof -
  have len: "length (full_tables ''Color'') = 65535"
    unfolding full_tables_def a_table by simp
  have none: "map_of (full_tables ''Color'') ''blue'' = None"
    unfolding full_tables_def by (rule a_table_miss) auto
  then show ?thesis
    using len by (simp add: Symbol_of_string_miss Symbol_null_def)
qed

text \<open>The examples of the specification: \<^verbatim>\<open>red\<close>, \<^verbatim>\<open>blue\<close>, \<^verbatim>\<open>red\<close> get the codes 1, 2, 1.\<close>

theorem intern_first_seen_order_witness:
  "Symbol_of_string ''Color'' ''red'' no_tables =
     (\<lparr>val = 1\<rparr>, no_tables(''Color'' := [(''red'', 1)]))
   \<and> unat (val (fst (Symbol_of_string ''Color'' ''blue''
                      (no_tables(''Color'' := [(''red'', 1)]))))) = 2
   \<and> Symbol_of_string ''Color'' ''red''
        (no_tables(''Color'' := [(''red'', 1), (''blue'', 2)])) =
     (\<lparr>val = 1\<rparr>, no_tables(''Color'' := [(''red'', 1), (''blue'', 2)]))"
  using intern_first_seen_order [of no_tables "''Color''" "''red''"]
    intern_first_seen_order [of "no_tables(''Color'' := [(''red'', 1)])" "''Color''" "''blue''"]
    intern_first_seen_order [of "no_tables(''Color'' := [(''red'', 1), (''blue'', 2)])"
       "''Color''" "''red''"]
  by (simp add: table_inv_def no_tables_def Symbol_of_string_def)

theorem intern_injective_witness:
  "(val (fst (Symbol_of_string ''Color'' ''red'' no_tables)) =
    val (fst (Symbol_of_string ''Color'' ''blue''
               (intern_all ''Color'' [] (snd (Symbol_of_string ''Color'' ''red'' no_tables))))))
     = (''red'' = ''blue'')
   \<and> (val (fst (Symbol_of_string ''Color'' ''red'' no_tables)) =
    val (fst (Symbol_of_string ''Color'' ''red''
               (intern_all ''Color'' [''blue''] (snd (Symbol_of_string ''Color'' ''red'' no_tables))))))
     = (''red'' = ''red'')"
  using intern_injective [of no_tables "''Color''" "''blue''" "[]" "''red''"]
    intern_injective [of no_tables "''Color''" "''red''" "[''blue'']" "''red''"]
  by (simp add: table_inv_def no_tables_def Symbol_of_string_def)

theorem null_code_reserved_witness:
  "Symbol_of_null (no_tables :: string intern_tables) = (\<lparr>val = 0\<rparr>, no_tables)
   \<and> val (fst (Symbol_of_string ''Color'' ''red'' no_tables)) \<noteq> 0
   \<and> \<not> Symbol_null (fst (Symbol_of_string ''Color'' ''red'' no_tables))"
  using null_code_reserved [of no_tables "''Color''" "''red''"]
  by (simp add: table_inv_def no_tables_def Symbol_of_string_def)

subsection \<open>Building the grouping index\<close>

lemma iota_loop_from:
  "i \<le> length ixs \<Longrightarrow> iota_loop i ixs = take i ixs @ [i..<length ixs]"
proof (induction i ixs rule: iota_loop.induct)
  case (1 i ixs)
  show ?case
  proof (cases "i < length ixs")
    case True
    have "iota_loop i ixs = iota_loop (Suc i) (ixs[i := i])"
      using True by (subst iota_loop.simps) simp
    also have "\<dots> = take (Suc i) (ixs[i := i]) @ [Suc i..<length ixs]"
      using 1(1) True by simp
    also have "take (Suc i) (ixs[i := i]) = take i ixs @ [i]"
      using True by (simp add: take_Suc_conv_app_nth)
    finally show ?thesis using True by (simp add: upt_conv_Cons)
  next
    case False
    with 1(2) show ?thesis by (subst iota_loop.simps) simp
  qed
qed

lemma iota_loop_identity: "iota_loop 0 (replicate n 0) = [0..<n]"
  by (simp add: iota_loop_from)

lemma length_group_loop: "length (group_loop vals ixs i p gs) = length gs"
proof (induction vals ixs i p gs rule: group_loop.induct)
  case (1 vals ixs i p gs)
  show ?case
  proof (cases "i < length ixs")
    case True
    with 1 show ?thesis by (subst group_loop.simps) (simp add: Let_def)
  next
    case False
    then show ?thesis by (subst group_loop.simps) simp
  qed
qed

lemma Index_ctor_Some:
  assumes "Index_ctor std_sort n vals = Some idx"
  shows "n < 2 ^ 32" and "ix idx = std_sort (key_less vals) [0..<n]"
    and "length (group_start idx) = n"
  using assms
  by (auto simp: Index_ctor_def iota_loop_identity Let_def length_group_loop
           split: if_splits)

lemma Index_ctor_returns:
  "n < 2 ^ 32 \<Longrightarrow> \<exists>idx. Index_ctor std_sort n vals = Some idx"
  by (simp add: Index_ctor_def Let_def not_le)

lemma sorted_wrt_key_less:
  "sorted_wrt (\<lambda>a b. \<not> key_less vals b a) xs = sorted (map vals xs)"
  by (simp add: key_less_def sorted_map not_less)

lemma mset_insert_before: "mset (insert_before cmp x ys) = add_mset x (mset ys)"
  by (induction ys) auto

lemma set_insert_before: "set (insert_before cmp x ys) = insert x (set ys)"
  by (induction ys) auto

lemma sorted_insert_before:
  "sorted (map vals ys) \<Longrightarrow> sorted (map vals (insert_before (key_less vals) x ys))"
  by (induction ys) (auto simp: set_insert_before key_less_def)

lemma stable_insertion_sort_post:
  "std_sort_post (key_less vals) xs (stable_insertion_sort (key_less vals) xs)"
  unfolding std_sort_post_def sorted_wrt_key_less stable_insertion_sort_def
  by (induction xs) (auto simp: mset_insert_before sorted_insert_before)

lemma filter_keeps_order:
  assumes "p < q" "q < length xs" "P (xs ! p)" "P (xs ! q)"
  shows "\<exists>us vs ws. filter P xs = us @ xs ! p # vs @ xs ! q # ws"
proof -
  have "xs = take p xs @ xs ! p # drop (Suc p) xs"
    using assms by (simp add: id_take_nth_drop)
  moreover have "drop (Suc p) xs =
      take (q - Suc p) (drop (Suc p) xs) @ xs ! q # drop (Suc q) xs"
    using assms id_take_nth_drop [of "q - Suc p" "drop (Suc p) xs"] by simp
  ultimately have "xs = take p xs @ xs ! p # take (q - Suc p) (drop (Suc p) xs)
      @ xs ! q # drop (Suc q) xs" by simp
  then have "filter P xs = filter P (take p xs @ xs ! p # take (q - Suc p) (drop (Suc p) xs)
      @ xs ! q # drop (Suc q) xs)" by simp
  also have "\<dots> = filter P (take p xs) @ xs ! p # filter P (take (q - Suc p) (drop (Suc p) xs))
      @ xs ! q # filter P (drop (Suc q) xs)"
    using assms by simp
  finally show ?thesis by blast
qed

lemma stable_rows_ascend:
  assumes st: "filter (\<lambda>r. vals r = k) ixs = filter (\<lambda>r. vals r = k) [0..<n]"
    and "p < q" "q < length ixs" "vals (ixs ! p) = k" "vals (ixs ! q) = k"
  shows "ixs ! p < ixs ! q"
proof -
  obtain us vs ws where "filter (\<lambda>r. vals r = k) ixs = us @ ixs ! p # vs @ ixs ! q # ws"
    using filter_keeps_order [of p q ixs "\<lambda>r. vals r = k"] assms by blast
  moreover have "sorted_wrt (<) (filter (\<lambda>r. vals r = k) [0..<n])"
    by (rule sorted_wrt_filter) simp
  ultimately have "sorted_wrt (<) (us @ ixs ! p # vs @ ixs ! q # ws)"
    using st by simp
  then show ?thesis by (auto simp: sorted_wrt_append)
qed

subsection \<open>The order of equal keys\<close>

text \<open>
  On at most 16 elements libstdc++ does no partitioning, and its insertion sort is the
  stable sort of the keys.
\<close>

lemma introsort_loop_small:
  "lst - first \<le> 16 \<Longrightarrow> introsort_loop cmp a first lst d = Some a"
  by (cases d) simp_all

lemma mset_filter_le_less:
  fixes f :: "'a \<Rightarrow> 'k::linorder"
  shows "mset (filter (\<lambda>e. f e \<le> c) p) + mset (filter (\<lambda>e. c < f e) p) = mset p"
  by (induction p) auto

lemma sort_key_snoc:
  fixes f :: "'a \<Rightarrow> 'k::linorder"
  shows "sort_key f (xs @ [v]) =
         filter (\<lambda>e. f e \<le> f v) (sort_key f xs) @ [v] @ filter (\<lambda>e. f v < f e) (sort_key f xs)"
proof (rule properties_for_sort_key)
  let ?p = "sort_key f xs"
  let ?ys = "filter (\<lambda>e. f e \<le> f v) ?p @ [v] @ filter (\<lambda>e. f v < f e) ?p"
  have "mset (filter (\<lambda>e. f e \<le> f v) ?p) + mset (filter (\<lambda>e. f v < f e) ?p) = mset ?p"
    by (rule mset_filter_le_less)
  then show "mset ?ys = mset (xs @ [v])" by simp
  show "sorted (map f ?ys)"
    using sorted_sort_key [of f xs]
    by (auto simp: sorted_append sorted_map intro: sorted_wrt_filter order_trans less_imp_le)
  fix k assume "k \<in> set ?ys"
  have st: "filter (\<lambda>x. f k = f x) ?p = filter (\<lambda>x. f k = f x) xs"
    using sort_key_stable [of f "f k" xs] by (simp add: eq_commute)
  consider "f k < f v" | "f k = f v" | "f v < f k" by (rule linorder_cases)
  then show "filter (\<lambda>x. f k = f x) ?ys = filter (\<lambda>x. f k = f x) (xs @ [v])"
  proof cases
    case 1
    then have "filter (\<lambda>x. f k = f x) (filter (\<lambda>e. f e \<le> f v) ?p) = filter (\<lambda>x. f k = f x) ?p"
      "filter (\<lambda>x. f k = f x) (filter (\<lambda>e. f v < f e) ?p) = []"
      by (auto simp: filter_empty_conv intro!: filter_cong)
    with 1 st show ?thesis by auto
  next
    case 2
    then have "filter (\<lambda>x. f k = f x) (filter (\<lambda>e. f e \<le> f v) ?p) = filter (\<lambda>x. f k = f x) ?p"
      "filter (\<lambda>x. f k = f x) (filter (\<lambda>e. f v < f e) ?p) = []"
      by (auto simp: filter_empty_conv intro!: filter_cong)
    with 2 st show ?thesis by simp
  next
    case 3
    then have "filter (\<lambda>x. f k = f x) (filter (\<lambda>e. f e \<le> f v) ?p) = []"
      "filter (\<lambda>x. f k = f x) (filter (\<lambda>e. f v < f e) ?p) = filter (\<lambda>x. f k = f x) ?p"
      by (auto simp: filter_empty_conv intro!: filter_cong)
    with 3 st show ?thesis by auto
  qed
qed

lemma unguarded_linear_insert_sorted:
  fixes vals :: "nat \<Rightarrow> 'k::linorder"
  assumes "k < length a" "sorted (map vals (take k a))"
    and "\<exists>e\<in>set (take k a). vals e \<le> vals v"
  shows "unguarded_linear_insert (key_less vals) v a k =
         Some (filter (\<lambda>e. vals e \<le> vals v) (take k a) @ [v]
               @ filter (\<lambda>e. vals v < vals e) (take k a) @ drop (Suc k) a)"
  using assms
proof (induction k arbitrary: a)
  case 0
  then show ?case by simp
next
  case (Suc k)
  have tk: "take (Suc k) a = take k a @ [a ! k]"
    using Suc.prems(1) by (simp add: take_Suc_conv_app_nth)
  show ?case
  proof (cases "vals v < vals (a ! k)")
    case True
    let ?a = "a[Suc k := a ! k]"
    have "unguarded_linear_insert (key_less vals) v ?a k =
         Some (filter (\<lambda>e. vals e \<le> vals v) (take k ?a) @ [v]
               @ filter (\<lambda>e. vals v < vals e) (take k ?a) @ drop (Suc k) ?a)"
    proof (rule Suc.IH)
      show "k < length ?a" using Suc.prems(1) by simp
      show "sorted (map vals (take k ?a))"
        using Suc.prems(2) by (simp add: tk sorted_append)
      show "\<exists>e\<in>set (take k ?a). vals e \<le> vals v"
        using Suc.prems(3) True by (auto simp: tk)
    qed
    moreover have "take k ?a = take k a" by simp
    moreover have "drop (Suc k) ?a = a ! k # drop (Suc (Suc k)) a"
      using Suc.prems(1) by (simp add: drop_update_swap Cons_nth_drop_Suc [symmetric]
          del: drop_Suc_Cons)
    moreover have "unguarded_linear_insert (key_less vals) v a (Suc k) =
        unguarded_linear_insert (key_less vals) v ?a k"
      using True by (simp add: key_less_def)
    moreover have "\<not> vals (a ! k) \<le> vals v" using True by simp
    ultimately show ?thesis
      using True by (simp add: tk)
  next
    case False
    have "\<forall>e\<in>set (take k a). vals e \<le> vals (a ! k)"
      using Suc.prems(2) by (auto simp: tk sorted_append)
    then have all: "\<forall>e\<in>set (take (Suc k) a). vals e \<le> vals v"
      using False by (auto simp: tk)
    then have "filter (\<lambda>e. vals e \<le> vals v) (take (Suc k) a) = take (Suc k) a"
      "filter (\<lambda>e. vals v < vals e) (take (Suc k) a) = []"
      by (auto simp: filter_empty_conv simp del: take_Suc_Cons)
    moreover have "a[Suc k := v] = take (Suc k) a @ [v] @ drop (Suc (Suc k)) a"
      using Suc.prems(1) by (simp add: upd_conv_take_nth_drop)
    moreover have "unguarded_linear_insert (key_less vals) v a (Suc k) = Some (a[Suc k := v])"
      using False by (simp add: key_less_def)
    ultimately show ?thesis
      by (simp del: take_Suc_Cons)
  qed
qed

lemma insertion_sort_loop_sorts:
  fixes vals :: "nat \<Rightarrow> 'k::linorder"
  assumes "0 < i" "i \<le> length xs"
  shows "insertion_sort_loop (key_less vals) (sort_key vals (take i xs) @ drop i xs) 0 (length xs) i
         = Some (sort_key vals xs)"
  using assms
proof (induction "length xs - i" arbitrary: i)
  case 0
  then have "i = length xs" by simp
  then show ?case by (subst insertion_sort_loop.simps) simp
next
  case (Suc d)
  then have lt: "i < length xs" by simp
  let ?p = "sort_key vals (take i xs)"
  let ?a = "?p @ drop i xs"
  let ?v = "xs ! i"
  let ?q = "filter (\<lambda>e. vals e \<le> vals ?v) ?p @ [?v] @ filter (\<lambda>e. vals ?v < vals e) ?p"
  have lenp: "length ?p = i" using lt by simp
  have ai: "?a ! i = ?v"
    using lt lenp by (simp add: nth_append)
  have a0: "?a ! 0 = ?p ! 0"
    using Suc.prems(1) lenp by (simp add: nth_append)
  have tk: "take i ?a = ?p" using lenp by simp
  have dr: "drop (Suc i) ?a = drop (Suc i) xs"
    using lenp lt by (simp add: drop_Suc [symmetric] del: drop_Suc)
  have srt: "sorted (map vals ?p)" by simp
  have pne: "?p \<noteq> []"
  proof
    assume "?p = []"
    then have "length ?p = 0" by simp
    with lenp Suc.prems(1) show False by simp
  qed
  have step: "(if key_less vals (?a ! i) (?a ! 0)
               then Some (take 0 ?a @ [?a ! i] @ take (i - 0) (drop 0 ?a) @ drop (Suc i) ?a)
               else unguarded_linear_insert (key_less vals) (?a ! i) ?a i)
              = Some (?q @ drop (Suc i) xs)"
  proof (cases "vals ?v < vals (?p ! 0)")
    case True
    have "\<forall>e\<in>set ?p. vals (?p ! 0) \<le> vals e"
      using srt pne by (cases ?p) (auto simp del: sort_key_simps)
    with True have "\<forall>e\<in>set ?p. vals ?v < vals e" by auto
    then have "filter (\<lambda>e. vals e \<le> vals ?v) ?p = []" "filter (\<lambda>e. vals ?v < vals e) ?p = ?p"
      by (auto simp: filter_empty_conv)
    then show ?thesis
      using True by (simp add: ai a0 tk dr key_less_def del: take_append drop_append)
  next
    case False
    have "?p ! 0 \<in> set ?p" by (metis nth_mem lenp Suc.prems(1))
    with False have "\<exists>e\<in>set ?p. vals e \<le> vals ?v"
      by (auto simp: not_less)
    then have ex: "\<exists>e\<in>set (take i ?a). vals e \<le> vals ?v"
      unfolding tk .
    have "unguarded_linear_insert (key_less vals) ?v ?a i =
          Some (filter (\<lambda>e. vals e \<le> vals ?v) (take i ?a) @ [?v]
               @ filter (\<lambda>e. vals ?v < vals e) (take i ?a) @ drop (Suc i) ?a)"
      by (rule unguarded_linear_insert_sorted) (use lt lenp srt ex tk in \<open>simp_all del: take_append\<close>)
    then show ?thesis
      using False by (simp add: ai a0 tk dr key_less_def del: take_append drop_append)
  qed
  have next_a: "?q @ drop (Suc i) xs = sort_key vals (take (Suc i) xs) @ drop (Suc i) xs"
    using lt by (simp add: take_Suc_conv_app_nth sort_key_snoc del: sort_key_simps)
  have "insertion_sort_loop (key_less vals) ?a 0 (length xs) i =
        insertion_sort_loop (key_less vals) (?q @ drop (Suc i) xs) 0 (length xs) (Suc i)"
    using lt by (subst insertion_sort_loop.simps) (simp only: step, simp)
  also have "\<dots> = Some (sort_key vals xs)"
    unfolding next_a using Suc.hyps lt by (intro Suc.hyps(1)) simp_all
  finally show ?case .
qed

lemma insertion_sort_sorts:
  fixes vals :: "nat \<Rightarrow> 'k::linorder"
  shows "insertion_sort (key_less vals) xs 0 (length xs) = Some (sort_key vals xs)"
proof (cases xs)
  case Nil
  then show ?thesis by (simp add: insertion_sort_def)
next
  case (Cons x ys)
  have "insertion_sort_loop (key_less vals) (sort_key vals (take 1 xs) @ drop 1 xs) 0 (length xs) 1
         = Some (sort_key vals xs)"
    by (rule insertion_sort_loop_sorts) (simp_all add: Cons)
  then show ?thesis by (simp add: insertion_sort_def Cons)
qed

lemma libstdcxx_sort_run_small:
  fixes vals :: "nat \<Rightarrow> 'k::linorder"
  assumes "length xs \<le> 16"
  shows "libstdcxx_sort_run (key_less vals) xs = Some (sort_key vals xs)"
proof (cases "xs = []")
  case True
  then show ?thesis by (simp add: libstdcxx_sort_run_def)
next
  case False
  with assms show ?thesis
    by (simp add: libstdcxx_sort_run_def introsort_loop_small final_insertion_sort_def
        insertion_sort_sorts del: sort_key_simps)
qed

lemma libstdcxx_sort_small:
  fixes vals :: "nat \<Rightarrow> 'k::linorder"
  shows "length xs \<le> 16 \<Longrightarrow> libstdcxx_sort (key_less vals) xs = sort_key vals xs"
  by (simp add: libstdcxx_sort_def libstdcxx_sort_run_small)

lemma stable_insertion_sort_sort_key:
  fixes vals :: "nat \<Rightarrow> 'k::linorder"
  shows "stable_insertion_sort (key_less vals) xs = sort_key vals xs"
proof -
  have "insert_before (key_less vals) x ys = insort_key vals x ys" for x ys
    by (induction ys) (auto simp: key_less_def)
  then show ?thesis
    by (induction xs) (simp_all add: stable_insertion_sort_def)
qed

lemma insort_key_agree:
  fixes f g :: "'a \<Rightarrow> 'k::linorder"
  shows "f x = g x \<Longrightarrow> \<forall>y\<in>set ys. f y = g y \<Longrightarrow> insort_key f x ys = insort_key g x ys"
  by (induction ys) auto

lemma sort_key_agree:
  fixes f g :: "'a \<Rightarrow> 'k::linorder"
  shows "\<forall>x\<in>set xs. f x = g x \<Longrightarrow> sort_key f xs = sort_key g xs"
proof (induction xs)
  case Nil
  then show ?case by simp
next
  case (Cons x xs)
  then have "sort_key f xs = sort_key g xs" by simp
  moreover have "insort_key f x (sort_key g xs) = insort_key g x (sort_key g xs)"
    using Cons.prems by (intro insort_key_agree) simp_all
  ultimately show ?case by simp
qed

lemma group_loop_agree:
  "\<forall>r\<in>set ixs. vals' r = vals r \<Longrightarrow> p < length ixs \<Longrightarrow>
   group_loop vals' ixs i p gs = group_loop vals ixs i p gs"
proof (induction vals ixs i p gs rule: group_loop.induct)
  case (1 vals ixs i p gs)
  show ?case
  proof (cases "i < length ixs")
    case False
    then show ?thesis
      by (subst group_loop.simps, subst (2) group_loop.simps) simp
  next
    case True
    let ?p = "if vals (ixs ! p) \<noteq> vals (ixs ! i) then i else p"
    have same: "(vals' (ixs ! p) \<noteq> vals' (ixs ! i)) = (vals (ixs ! p) \<noteq> vals (ixs ! i))"
      using 1(2,3) True by simp
    have "group_loop vals' ixs i p gs = group_loop vals' ixs (Suc i) ?p (gs[i := ixs ! ?p])"
      using True same by (subst group_loop.simps) (simp add: Let_def)
    also have "\<dots> = group_loop vals ixs (Suc i) ?p (gs[i := ixs ! ?p])"
      using 1(1) [OF True refl] 1(2,3) True by simp
    also have "\<dots> = group_loop vals ixs i p gs"
      using True by (subst (2) group_loop.simps) (simp add: Let_def)
    finally show ?thesis .
  qed
qed

lemma Index_ctor_libstdcxx_small:
  fixes vals :: "nat \<Rightarrow> 'k::linorder"
  assumes "n \<le> 16"
  shows "Index_ctor libstdcxx_sort n vals = Index_ctor stable_insertion_sort n vals"
  using assms
  by (simp add: Index_ctor_def iota_loop_identity libstdcxx_sort_small
      stable_insertion_sort_sort_key del: sort_key_simps)

text \<open>
  From 17 rows on the library partitions, and the partition does not keep equal keys in
  order. The result for 20 rows with equal keys:
\<close>

lemma libstdcxx_sort_run_20_equal_keys:
  "libstdcxx_sort_run (key_less tie_keys)
     [0, 1, 2, 3, 4, 5, 6, 7, 8, 9, 10, 11, 12, 13, 14, 15, 16, 17, 18, 19]
     = Some [10, 19, 18, 17, 16, 15, 14, 13, 12, 11, 0, 9, 8, 7, 6, 5, 4, 3, 2, 1]"
  by code_simp

text \<open>
  C2 (amended). For an input of at most 16 rows the constructor, with the
  \<^verbatim>\<open>std::sort\<close> of libstdc++, returns an index whose \<^verbatim>\<open>ix\<close> is what the sort
  returns (it reads nothing outside the vector and needs no fallback), a rearrangement
  of the row ids \<open>0..n-1\<close> in ascending key order in which rows with equal keys are in
  their original order; and a build from any key function with the same keys for the rows
  \<open>0..n-1\<close> returns the same index.
\<close>

theorem ties_keep_order_upto_16:
  fixes vals :: "nat \<Rightarrow> 'k::linorder"
  assumes "n \<le> 16"
  shows "\<exists>idx. Index_ctor libstdcxx_sort n vals = Some idx
    \<and> libstdcxx_sort_run (key_less vals) [0..<n] = Some (ix idx)
    \<and> mset (ix idx) = mset [0..<n]
    \<and> sorted (map vals (ix idx))
    \<and> (\<forall>p q. p < q \<and> q < n \<and> vals (ix idx ! p) = vals (ix idx ! q) \<longrightarrow>
               ix idx ! p < ix idx ! q)
    \<and> (\<forall>vals' :: nat \<Rightarrow> 'k. (\<forall>r<n. vals' r = vals r) \<longrightarrow>
               Index_ctor libstdcxx_sort n vals' = Some idx)"
proof -
  have small: "n < 2 ^ 32" using assms by simp
  obtain idx where built: "Index_ctor libstdcxx_sort n vals = Some idx"
    using Index_ctor_returns [OF small] by blast
  have ixs: "ix idx = sort_key vals [0..<n]"
    using Index_ctor_Some(2) [OF built] assms by (simp add: libstdcxx_sort_small)
  have run: "libstdcxx_sort_run (key_less vals) [0..<n] = Some (ix idx)"
    unfolding ixs using assms by (intro libstdcxx_sort_run_small) simp
  have m: "mset (ix idx) = mset [0..<n]" and s: "sorted (map vals (ix idx))"
    unfolding ixs by simp_all
  have len: "length (ix idx) = n" unfolding ixs by simp
  have stable: "filter (\<lambda>r. vals r = k) (ix idx) = filter (\<lambda>r. vals r = k) [0..<n]" for k
    unfolding ixs by (rule sort_key_stable)
  have order: "ix idx ! p < ix idx ! q"
    if "p < q" "q < n" "vals (ix idx ! p) = vals (ix idx ! q)" for p q
    using stable_rows_ascend [of vals "vals (ix idx ! q)" "ix idx" n p q] stable that len by simp
  have same: "Index_ctor libstdcxx_sort n vals' = Some idx"
    if agree: "\<forall>r<n. vals' r = vals r" for vals' :: "nat \<Rightarrow> 'k"
  proof -
    have sk: "sort_key vals' [0..<n] = sort_key vals [0..<n]"
      using agree by (intro sort_key_agree) simp
    have srt: "libstdcxx_sort (key_less vals') [0..<n] = libstdcxx_sort (key_less vals) [0..<n]"
      using assms sk by (simp add: libstdcxx_sort_small)
    let ?ixs = "libstdcxx_sort (key_less vals) [0..<n]"
    have lenx: "length ?ixs = n" and setx: "set ?ixs = {0..<n}"
      using assms by (simp_all add: libstdcxx_sort_small)
    have on_ixs: "\<forall>r\<in>set ?ixs. vals' r = vals r" using agree setx by simp
    have "group_loop vals' ?ixs 1 (?ixs ! 0) gs = group_loop vals ?ixs 1 (?ixs ! 0) gs"
      if "?ixs \<noteq> []" for gs
    proof (rule group_loop_agree [OF on_ixs])
      from that have "0 < length ?ixs" by simp
      then have "?ixs ! 0 \<in> set ?ixs" by (rule nth_mem)
      then show "?ixs ! 0 < length ?ixs" using setx lenx by simp
    qed
    moreover have "((replicate n (0::nat))[0 := x]) ! 0 = x" if "?ixs \<noteq> []" for x
      using that lenx by (cases n) auto
    ultimately have "Index_ctor libstdcxx_sort n vals' = Index_ctor libstdcxx_sort n vals"
      by (simp add: Index_ctor_def iota_loop_identity srt Let_def)
    with built show ?thesis by simp
  qed
  from built run m s order same show ?thesis by blast
qed

theorem ties_keep_order_upto_16_witness:
  "Index_ctor libstdcxx_sort 5 example_keys =
      Some \<lparr>ix = [1, 4, 3, 0, 2], group_start = [1, 4, 3, 0, 0]\<rparr>
   \<and> example_keys 1 = example_keys 4
   \<and> [1, 4, 3, 0, 2 :: nat] ! 0 < [1, 4, 3, 0, 2] ! 1
   \<and> Index_ctor libstdcxx_sort 5 example_keys_more =
      Some \<lparr>ix = [1, 4, 3, 0, 2], group_start = [1, 4, 3, 0, 0]\<rparr>"
proof -
  let ?idx = "\<lparr>ix = [1, 4, 3, 0, 2], group_start = [1, 4, 3, 0, 0]\<rparr>"
  have b: "Index_ctor libstdcxx_sort 5 example_keys = Some ?idx"
    by code_simp
  have n: "(5::nat) \<le> 16" by simp
  have e: "example_keys (ix ?idx ! 0) = example_keys (ix ?idx ! 1)"
    by (simp add: example_keys_def)
  have agree: "\<forall>r<5. example_keys_more r = example_keys r"
  proof (intro allI impI)
    fix r :: nat assume "r < 5"
    then consider "r = 0" | "r = 1" | "r = 2" | "r = 3" | "r = 4" by linarith
    then show "example_keys_more r = example_keys r"
      by cases (simp_all add: example_keys_def example_keys_more_def)
  qed
  from ties_keep_order_upto_16 [where n = 5 and vals = example_keys, OF n]
  obtain idx where i: "Index_ctor libstdcxx_sort 5 example_keys = Some idx"
    "\<forall>p q. p < q \<and> q < 5 \<and> example_keys (ix idx ! p) = example_keys (ix idx ! q) \<longrightarrow>
               ix idx ! p < ix idx ! q"
    "\<forall>vals' :: nat \<Rightarrow> nat. (\<forall>r<5. vals' r = example_keys r) \<longrightarrow>
               Index_ctor libstdcxx_sort 5 vals' = Some idx"
    by blast
  from i(1) b have eq: "idx = ?idx" by simp
  from i(2) have "(0::nat) < 1 \<and> (1::nat) < 5
      \<and> example_keys (ix ?idx ! 0) = example_keys (ix ?idx ! 1) \<longrightarrow> ix ?idx ! 0 < ix ?idx ! 1"
    unfolding eq by blast
  with e have o: "ix ?idx ! 0 < ix ?idx ! 1" by simp
  from i(3) agree have d: "Index_ctor libstdcxx_sort 5 example_keys_more = Some ?idx"
    unfolding eq by blast
  from b o d show ?thesis by (simp add: example_keys_def)
qed

text \<open>
  C2 as stated fails at 17 rows. With all keys equal, the median-of-three step of
  libstdc++ swaps the positions 0 and 8, and the partition then swaps the positions 1 and
  16, 2 and 15, and so on to 8 and 9, although no key is less than another; the insertion
  sort that follows moves nothing. The constructor is left with row 8 at position 0 and
  row 0 at position 9 of \<^verbatim>\<open>ix\<close>: two rows with equal keys in the reverse of their
  original order.
\<close>

theorem libstdcxx_sort_reorders_ties:
  "libstdcxx_sort_run (key_less tie_keys) [0, 1, 2, 3, 4, 5, 6, 7, 8, 9, 10, 11, 12, 13, 14, 15, 16]
     = Some [8, 16, 15, 14, 13, 12, 11, 10, 9, 0, 7, 6, 5, 4, 3, 2, 1]
   \<and> map_option ix (Index_ctor libstdcxx_sort 17 tie_keys)
     = Some [8, 16, 15, 14, 13, 12, 11, 10, 9, 0, 7, 6, 5, 4, 3, 2, 1]
   \<and> tie_keys 0 = tie_keys 8"
  by code_simp

subsection \<open>The group pass and the initial value of \<^verbatim>\<open>prev_i\<close>\<close>

text \<open>
  The loop of lines 128-133 is right when it starts with \<^verbatim>\<open>prev_i\<close> at the sorted
  position 0: every position then records the row at the first position of its group.
\<close>

lemma group_first_unique:
  "group_first vals ixs j s \<Longrightarrow> group_first vals ixs j t \<Longrightarrow> s = t"
  unfolding group_first_def by (metis linorder_neqE_nat)

lemma group_first_same_key:
  "group_first vals ixs i s \<Longrightarrow> vals (ixs ! i) = vals (ixs ! j) \<Longrightarrow> s \<le> j \<Longrightarrow>
   group_first vals ixs j s"
  unfolding group_first_def by simp

lemma sorted_keys_le:
  "sorted (map vals ixs) \<Longrightarrow> a \<le> b \<Longrightarrow> b < length ixs \<Longrightarrow> vals (ixs ! a) \<le> vals (ixs ! b)"
  using sorted_nth_mono [of "map vals ixs" a b] by simp

lemma group_loop_from_first:
  fixes vals :: "nat \<Rightarrow> 'k::linorder"
  assumes "sorted (map vals ixs)" "length gs = length ixs"
    and "p < i" "i \<le> length ixs"
    and "group_first vals ixs (i - 1) p"
    and "\<forall>j<i. \<exists>s. group_first vals ixs j s \<and> gs ! j = ixs ! s"
  shows "\<forall>j<length ixs. \<exists>s. group_first vals ixs j s
            \<and> group_loop vals ixs i p gs ! j = ixs ! s"
  using assms
proof (induction vals ixs i p gs rule: group_loop.induct)
  case (1 vals ixs i p gs)
  show ?case
  proof (cases "i < length ixs")
    case False
    with 1(5) have "i = length ixs" by simp
    moreover have "group_loop vals ixs i p gs = gs"
      using False by (subst group_loop.simps) simp
    ultimately show ?thesis using 1(7) by simp
  next
    case lt: True
    let ?p = "if vals (ixs ! p) \<noteq> vals (ixs ! i) then i else p"
    let ?gs = "gs[i := ixs ! ?p]"
    have unfold: "group_loop vals ixs i p gs = group_loop vals ixs (Suc i) ?p ?gs"
      using lt by (subst group_loop.simps) (simp add: Let_def)
    have key_p: "vals (ixs ! p) = vals (ixs ! (i - 1))"
      using 1(6) by (simp add: group_first_def)
    have first_i: "group_first vals ixs i ?p"
    proof (cases "vals (ixs ! p) \<noteq> vals (ixs ! i)")
      case True
      have "vals (ixs ! k) \<noteq> vals (ixs ! i)" if "k < i" for k
      proof -
        have "vals (ixs ! k) \<le> vals (ixs ! (i - 1))"
          using sorted_keys_le [OF 1(2), of k "i - 1"] that lt by simp
        moreover have "vals (ixs ! (i - 1)) \<le> vals (ixs ! i)"
          using sorted_keys_le [OF 1(2), of "i - 1" i] lt by simp
        ultimately show ?thesis using True key_p by auto
      qed
      with True show ?thesis by (simp add: group_first_def)
    next
      case False
      with 1(6) 1(4) show ?thesis
        by (simp add: group_first_def)
    qed
    have "\<forall>j<length ixs. \<exists>s. group_first vals ixs j s
            \<and> group_loop vals ixs (Suc i) ?p ?gs ! j = ixs ! s"
    proof (rule 1(1) [OF lt refl])
      show "sorted (map vals ixs)" by (rule 1(2))
      show "length ?gs = length ixs" using 1(3) by simp
      show "?p < Suc i" using 1(4) by simp
      show "Suc i \<le> length ixs" using lt by simp
      show "group_first vals ixs (Suc i - 1) ?p" using first_i by simp
      show "\<forall>j<Suc i. \<exists>s. group_first vals ixs j s \<and> ?gs ! j = ixs ! s"
      proof (intro allI impI)
        fix j assume "j < Suc i"
        show "\<exists>s. group_first vals ixs j s \<and> ?gs ! j = ixs ! s"
        proof (cases "j = i")
          case True
          then have "?gs ! j = ixs ! ?p" using lt 1(3) by simp
          with first_i True show ?thesis by blast
        next
          case False
          with \<open>j < Suc i\<close> have "j < i" by simp
          then have "?gs ! j = gs ! j" by simp
          with 1(7) \<open>j < i\<close> show ?thesis by simp
        qed
      qed
    qed
    then show ?thesis by (simp only: unfold)
  qed
qed

lemma group_loop_below:
  "j < i \<Longrightarrow> group_loop vals ixs i p gs ! j = gs ! j"
proof (induction vals ixs i p gs rule: group_loop.induct)
  case (1 vals ixs i p gs)
  show ?case
  proof (cases "i < length ixs")
    case True
    let ?p = "if vals (ixs ! p) \<noteq> vals (ixs ! i) then i else p"
    have "group_loop vals ixs i p gs = group_loop vals ixs (Suc i) ?p (gs[i := ixs ! ?p])"
      using True by (subst group_loop.simps) (simp add: Let_def)
    moreover have "group_loop vals ixs (Suc i) ?p (gs[i := ixs ! ?p]) ! j = gs[i := ixs ! ?p] ! j"
      using 1(1) [OF True refl] 1(2) by simp
    ultimately show ?thesis using 1(2) by simp
  next
    case False
    then show ?thesis by (subst group_loop.simps) simp
  qed
qed

lemma Index_ctor_group_start:
  assumes "Index_ctor std_sort n vals = Some idx" and "ix idx \<noteq> []" and "0 < n"
  shows "group_start idx =
         group_loop vals (ix idx) 1 (ix idx ! 0) ((replicate n 0)[0 := ix idx ! 0])"
  using assms
  by (auto simp: Index_ctor_def iota_loop_identity Let_def split: if_splits)

lemma Index_ctor_perm:
  assumes "Index_ctor std_sort n vals = Some idx"
    and "std_sort_post (key_less vals) [0..<n] (std_sort (key_less vals) [0..<n])"
  shows "length (ix idx) = n" and "set (ix idx) = {0..<n}" and "distinct (ix idx)"
    and "sorted (map vals (ix idx))"
proof -
  have ixs: "ix idx = std_sort (key_less vals) [0..<n]"
    using assms(1) by (rule Index_ctor_Some)
  have m: "mset (ix idx) = mset [0..<n]"
    using assms(2) unfolding ixs std_sort_post_def by simp
  show "length (ix idx) = n"
    using mset_eq_length [OF m] by simp
  show "set (ix idx) = {0..<n}"
    using mset_eq_setD [OF m] by simp
  show "distinct (ix idx)"
    using mset_eq_imp_distinct_iff [OF m] by simp
  show "sorted (map vals (ix idx))"
    using assms(2) unfolding ixs std_sort_post_def sorted_wrt_key_less by simp
qed


text \<open>
  The constructor starts the loop with \<^verbatim>\<open>prev_i = group_start[0]\<close>, the row id
  \<^verbatim>\<open>ix[0]\<close>. When the sort leaves row 0 at position 0 the two agree and
  \<^verbatim>\<open>group_start\<close> identifies the groups.
\<close>

lemma group_start_row0_first:
  fixes vals :: "nat \<Rightarrow> 'k::linorder"
  assumes built: "Index_ctor std_sort n vals = Some idx"
    and post: "std_sort_post (key_less vals) [0..<n] (std_sort (key_less vals) [0..<n])"
    and first: "ix idx ! 0 = 0"
  shows "\<forall>j<n. \<exists>s. group_first vals (ix idx) j s \<and> group_start idx ! j = ix idx ! s"
    and "\<forall>i<n. \<forall>j<n. (group_start idx ! i = group_start idx ! j) =
                       (vals (ix idx ! i) = vals (ix idx ! j))"
proof -
  note p = Index_ctor_perm [OF built post]
  show a: "\<forall>j<n. \<exists>s. group_first vals (ix idx) j s \<and> group_start idx ! j = ix idx ! s"
  proof (cases "n = 0")
    case True
    then show ?thesis by simp
  next
    case False
    then have pos: "0 < n" by simp
    with p(1) have ne: "ix idx \<noteq> []" by auto
    let ?gs = "(replicate n 0)[0 := ix idx ! 0]"
    have gs: "group_start idx = group_loop vals (ix idx) 1 0 ?gs"
      using Index_ctor_group_start [OF built ne pos] first by simp
    have "\<forall>j<length (ix idx). \<exists>s. group_first vals (ix idx) j s
            \<and> group_loop vals (ix idx) 1 0 ?gs ! j = ix idx ! s"
    proof (rule group_loop_from_first [OF p(4)])
      show "length ?gs = length (ix idx)" using p(1) by simp
      show "(0::nat) < 1" by simp
      show "1 \<le> length (ix idx)" using p(1) pos by simp
      show "group_first vals (ix idx) (1 - 1) 0" by (simp add: group_first_def)
      show "\<forall>j<1. \<exists>s. group_first vals (ix idx) j s \<and> ?gs ! j = ix idx ! s"
        using pos by (auto simp: group_first_def)
    qed
    then show ?thesis using gs p(1) by simp
  qed
  show "\<forall>i<n. \<forall>j<n. (group_start idx ! i = group_start idx ! j) =
                       (vals (ix idx ! i) = vals (ix idx ! j))"
  proof (intro allI impI)
    fix i j assume "i < n" "j < n"
    obtain s where s: "group_first vals (ix idx) i s" "group_start idx ! i = ix idx ! s"
      using a \<open>i < n\<close> by blast
    obtain t where t: "group_first vals (ix idx) j t" "group_start idx ! j = ix idx ! t"
      using a \<open>j < n\<close> by blast
    have sn: "s < n" "t < n"
      using s(1) t(1) \<open>i < n\<close> \<open>j < n\<close> by (auto simp: group_first_def)
    show "(group_start idx ! i = group_start idx ! j) = (vals (ix idx ! i) = vals (ix idx ! j))"
    proof
      assume "group_start idx ! i = group_start idx ! j"
      then have "ix idx ! s = ix idx ! t" using s t by simp
      then have "s = t" using p(1,3) sn by (simp add: nth_eq_iff_index_eq)
      with s(1) t(1) show "vals (ix idx ! i) = vals (ix idx ! j)"
        by (simp add: group_first_def)
    next
      assume eq: "vals (ix idx ! i) = vals (ix idx ! j)"
      have "group_first vals (ix idx) j s"
        using s(1) t(1) eq unfolding group_first_def
        by (metis leI order_trans)
      then have "s = t" using t(1) by (rule group_first_unique)
      then show "group_start idx ! i = group_start idx ! j" using s t by simp
    qed
  qed
qed


text \<open>
  Otherwise positions 0 and 1 never share a representative, whatever their keys. So
  whenever the smallest key belongs to two or more rows and row 0 is not one of them,
  the first group is split, however \<^verbatim>\<open>std::sort\<close> orders equal keys.
\<close>

lemma group_start_0_1:
  fixes vals :: "nat \<Rightarrow> 'k::linorder"
  assumes built: "Index_ctor std_sort n vals = Some idx"
    and post: "std_sort_post (key_less vals) [0..<n] (std_sort (key_less vals) [0..<n])"
    and "2 \<le> n"
  shows "group_start idx ! 0 = ix idx ! 0"
    and "group_start idx ! 1 =
         ix idx ! (if vals (ix idx ! (ix idx ! 0)) \<noteq> vals (ix idx ! 1) then 1 else ix idx ! 0)"
proof -
  note p = Index_ctor_perm [OF built post]
  let ?ixs = "ix idx"
  let ?r = "?ixs ! 0"
  let ?gs = "(replicate n 0)[0 := ?r]"
  let ?p = "if vals (?ixs ! ?r) \<noteq> vals (?ixs ! 1) then 1 else ?r"
  have ne: "?ixs \<noteq> []" and pos: "0 < n" using p(1) assms(3) by auto
  have gs: "group_start idx = group_loop vals ?ixs 1 ?r ?gs"
    by (rule Index_ctor_group_start [OF built ne pos])
  also have "\<dots> = group_loop vals ?ixs (Suc 1) ?p (?gs[1 := ?ixs ! ?p])"
    using p(1) assms(3) by (subst group_loop.simps) (simp add: Let_def)
  finally have gs2: "group_start idx = group_loop vals ?ixs (Suc 1) ?p (?gs[1 := ?ixs ! ?p])" .
  show "group_start idx ! 0 = ?r"
    unfolding gs2 using pos by (simp add: group_loop_below)
  show "group_start idx ! 1 = ?ixs ! ?p"
    unfolding gs2 using assms(3) by (simp add: group_loop_below)
qed


lemma group_start_slip:
  fixes vals :: "nat \<Rightarrow> 'k::linorder"
  assumes built: "Index_ctor std_sort n vals = Some idx"
    and post: "std_sort_post (key_less vals) [0..<n] (std_sort (key_less vals) [0..<n])"
    and "2 \<le> n" and "ix idx ! 0 \<noteq> 0"
  shows "group_start idx ! 0 \<noteq> group_start idx ! 1"
proof -
  note p = Index_ctor_perm [OF built post]
  let ?p = "if vals (ix idx ! (ix idx ! 0)) \<noteq> vals (ix idx ! 1) then 1 else ix idx ! 0"
  have pos: "0 < n" using assms(3) by simp
  have "ix idx ! 0 < n" using p(1,2) pos nth_mem [of 0 "ix idx"] by auto
  then have "?p < n" using assms(3) by simp
  moreover have "?p \<noteq> 0" using assms(4) by simp
  ultimately have "ix idx ! ?p \<noteq> ix idx ! 0"
    using p(1,3) pos by (simp add: nth_eq_iff_index_eq)
  with group_start_0_1 [OF built post assms(3)] show ?thesis by simp
qed

lemma group_start_splits_first_group:
  fixes vals :: "nat \<Rightarrow> 'k::linorder"
  assumes built: "Index_ctor std_sort n vals = Some idx"
    and post: "std_sort_post (key_less vals) [0..<n] (std_sort (key_less vals) [0..<n])"
    and ab: "a < n" "b < n" "a \<noteq> b" "vals a = vals b"
    and least: "\<forall>r<n. vals a \<le> vals r"
    and row0: "vals a < vals 0"
  shows "vals (ix idx ! 0) = vals (ix idx ! 1) \<and> group_start idx ! 0 \<noteq> group_start idx ! 1"
proof -
  note p = Index_ctor_perm [OF built post]
  from ab p(1,2) obtain pa pb where pos: "pa < n" "ix idx ! pa = a" "pb < n" "ix idx ! pb = b"
    by (metis atLeastLessThan_iff in_set_conv_nth zero_le)
  with ab(3) have "pa \<noteq> pb" by auto
  then have n2: "2 \<le> n" using pos(1,3) by auto
  define m where "m = max pa pb"
  have m: "1 \<le> m" "m < n" "vals (ix idx ! m) = vals a"
    using pos \<open>pa \<noteq> pb\<close> ab(4) by (auto simp: m_def max_def)
  have low: "vals a \<le> vals (ix idx ! k)" if "k < n" for k
  proof -
    have "ix idx ! k \<in> set (ix idx)" using that p(1) by simp
    then have "ix idx ! k < n" using p(2) by simp
    with least show ?thesis by simp
  qed
  have k0: "vals (ix idx ! 0) = vals a"
    using sorted_keys_le [OF p(4), of 0 m] m p(1) low [of 0] by simp
  have k1: "vals (ix idx ! 1) = vals a"
    using sorted_keys_le [OF p(4), of 1 m] m p(1) low [of 1] n2 by simp
  have "ix idx ! 0 \<noteq> 0"
  proof
    assume "ix idx ! 0 = 0"
    with k0 row0 show False by simp
  qed
  from group_start_slip [OF built post n2 this] k0 k1 show ?thesis by simp
qed

text \<open>
  C1 fails on scenario 2 of the specification (keys 3, 1, 3, 2, 1), an instance of
  \<open>group_start_splits_first_group\<close>. Sorted positions 0 and 1 hold the rows 1 and 4,
  which have the same key, yet \<^verbatim>\<open>group_start\<close> is 1 at position 0 and 4 at position
  1: \<^verbatim>\<open>prev_i\<close> starts as the row id \<^verbatim>\<open>group_start[0]\<close> = 1 where the position 0
  is meant, so position 1 is compared with itself and takes its own row as representative.
\<close>

theorem group_start_scenario_2:
  "Index_ctor stable_insertion_sort 5 example_keys =
     Some \<lparr>ix = [1, 4, 3, 0, 2], group_start = [1, 4, 3, 0, 0]\<rparr>
   \<and> example_keys 1 = example_keys 4"
  by code_simp


text \<open>
  \<^verbatim>\<open>indexes\<close> then lists two rows of the smallest key. With row 0 at position 0 it
  lists one row per key, in strictly ascending key order.
\<close>

lemma indexes_repeats_first_key:
  fixes vals :: "nat \<Rightarrow> 'k::linorder"
  assumes built: "Index_ctor std_sort n vals = Some idx"
    and post: "std_sort_post (key_less vals) [0..<n] (std_sort (key_less vals) [0..<n])"
    and ab: "a < n" "b < n" "a \<noteq> b" "vals a = vals b"
    and least: "\<forall>r<n. vals a \<le> vals r"
    and row0: "vals a < vals 0"
  shows "2 \<le> length (indexes idx) \<and> vals (indexes idx ! 0) = vals (indexes idx ! 1)"
proof -
  from ab have n2: "2 \<le> n" by auto
  have split: "vals (ix idx ! 0) = vals (ix idx ! 1)"
    "group_start idx ! 0 \<noteq> group_start idx ! 1"
    using group_start_splits_first_group [OF built post ab least row0] by simp_all
  have len: "length (group_start idx) = n"
    using built by (rule Index_ctor_Some)
  with n2 obtain x y rest where gs: "group_start idx = x # y # rest"
    by (cases "group_start idx"; cases "tl (group_start idx)") auto
  with split(2) have "x \<noteq> y" by simp
  obtain zs where "remdups_adj (y # rest) = y # zs"
    by (cases "remdups_adj (y # rest)") (auto simp: remdups_adj_Cons split: list.splits if_splits)
  with \<open>x \<noteq> y\<close> have ind: "indexes idx = x # y # zs"
    by (simp add: indexes_def gs)
  have x: "x = ix idx ! 0"
    and y: "y = ix idx ! (if vals (ix idx ! (ix idx ! 0)) \<noteq> vals (ix idx ! 1) then 1 else ix idx ! 0)"
    using group_start_0_1 [OF built post n2] gs by simp_all
  have "vals y = vals (ix idx ! 1)" using y by (simp split: if_splits)
  with x split(1) ind show ?thesis by simp
qed

lemma remdups_adj_map_inj_on:
  "inj_on f (set xs) \<Longrightarrow> remdups_adj (map f xs) = map f (remdups_adj xs)"
proof (induction xs rule: remdups_adj.induct)
  case (3 x y xs)
  then have "(f x = f y) = (x = y)" by (auto simp: inj_on_def)
  moreover have "inj_on f (set (x # xs))" "inj_on f (set (y # xs))"
    using 3(3) by (auto simp: inj_on_def)
  ultimately show ?case using 3(1,2) by auto
qed simp_all

lemma strict_sorted_remdups_adj:
  fixes xs :: "'k::linorder list"
  shows "sorted xs \<Longrightarrow> sorted_wrt (<) (remdups_adj xs)"
proof (induction xs rule: remdups_adj.induct)
  case (3 x y xs)
  show ?case
  proof (cases "x = y")
    case True
    with 3 show ?thesis by simp
  next
    case False
    with 3(3) have "x < y" by auto
    moreover have "\<forall>z\<in>set xs. y \<le> z" using 3(3) by simp
    ultimately have "\<forall>z\<in>set (y # xs). x < z" by auto
    with False 3(2,3) show ?thesis by simp
  qed
qed simp_all

lemma indexes_row0_first:
  fixes vals :: "nat \<Rightarrow> 'k::linorder"
  assumes built: "Index_ctor std_sort n vals = Some idx"
    and post: "std_sort_post (key_less vals) [0..<n] (std_sort (key_less vals) [0..<n])"
    and first: "ix idx ! 0 = 0"
  shows "sorted_wrt (<) (map vals (indexes idx))"
    and "set (map vals (indexes idx)) = vals ` {0..<n}"
proof -
  note p = Index_ctor_perm [OF built post]
  note g = group_start_row0_first [OF built post first]
  have len: "length (group_start idx) = n"
    using built by (rule Index_ctor_Some)
  have key: "vals (group_start idx ! j) = vals (ix idx ! j)" if "j < n" for j
    using g(1) that by (auto simp: group_first_def)
  have keys: "map vals (group_start idx) = map vals (ix idx)"
    using len p(1) key by (auto intro: nth_equalityI)
  have "inj_on vals (set (group_start idx))"
  proof (rule inj_onI)
    fix x y assume "x \<in> set (group_start idx)" "y \<in> set (group_start idx)" "vals x = vals y"
    then obtain i j where ij: "i < n" "x = group_start idx ! i" "j < n" "y = group_start idx ! j"
      using len by (metis in_set_conv_nth)
    with \<open>vals x = vals y\<close> have "vals (ix idx ! i) = vals (ix idx ! j)"
      using key by simp
    with g(2) ij show "x = y" by simp
  qed
  then have "map vals (indexes idx) = remdups_adj (map vals (ix idx))"
    by (simp add: indexes_def remdups_adj_map_inj_on [symmetric] keys)
  moreover have "sorted_wrt (<) (remdups_adj (map vals (ix idx)))"
    using p(4) by (rule strict_sorted_remdups_adj)
  moreover have "set (remdups_adj (map vals (ix idx))) = vals ` {0..<n}"
    using p(2) by simp
  ultimately show "sorted_wrt (<) (map vals (indexes idx))"
    and "set (map vals (indexes idx)) = vals ` {0..<n}"
    by simp_all
qed

text \<open>
  C4 fails on the same input: \<^verbatim>\<open>indexes\<close> returns four row ids for three distinct
  keys, and the keys of the returned rows, 1, 1, 2, 3, are not strictly ascending.
\<close>

theorem indexes_scenario_2:
  "map_option indexes (Index_ctor stable_insertion_sort 5 example_keys) = Some [1, 4, 3, 0]
   \<and> map example_keys [1, 4, 3, 0] = [1, 1, 2, 3]"
  by code_simp

subsection \<open>Iterating the groups\<close>

lemma merge_loop_this:
  "fst (snd (merge_loop f i p (this, env))) = this"
proof (induction f i p "(this, env)" arbitrary: env rule: merge_loop.induct)
  case (1 f i p env)
  show ?case
  proof (cases "i < length (ix this)")
    case False
    then show ?thesis by (subst merge_loop.simps) simp
  next
    case True
    show ?thesis
    proof (cases "group_start this ! i \<noteq> group_start this ! p")
      case True
      with \<open>i < length (ix this)\<close> 1(1) show ?thesis
        by (subst merge_loop.simps) simp
    next
      case False
      with \<open>i < length (ix this)\<close> 1(2) show ?thesis
        by (subst merge_loop.simps) simp
    qed
  qed
qed

text \<open>
  C10. \<^verbatim>\<open>merge\<close> leaves the index it is called on as it was, and the index it
  returns equals it, for every callback and every index.
\<close>

theorem merge_keeps_index:
  "fst (merge f (this, env)) = this \<and> fst (snd (merge f (this, env))) = this"
proof -
  obtain p t e where r: "merge_loop f 0 0 (this, env) = (p, t, e)"
    by (cases "merge_loop f 0 0 (this, env)") auto
  then have "t = this" using merge_loop_this [of f 0 0 this env] by simp
  with r show ?thesis by (simp add: merge_def)
qed

lemma merge_loop_chain:
  "p \<le> i \<Longrightarrow> p < length (ix this) \<Longrightarrow>
   \<exists>rs p'. merge_loop f i p (this, env) = (p', this, fold f rs env)
       \<and> chain p rs p' \<and> p' < length (ix this)
       \<and> (\<forall>r\<in>set rs. group_head r = group_start this ! range_b r)"
proof (induction f i p "(this, env)" arbitrary: env rule: merge_loop.induct)
  case (1 f i p env)
  show ?case
  proof (cases "i < length (ix this)")
    case False
    then have "merge_loop f i p (this, env) = (p, this, fold f [] env)"
      by (subst merge_loop.simps) simp
    with 1(4) show ?thesis
      by (intro exI [of _ "[]"] exI [of _ p]) simp
  next
    case lt: True
    show ?thesis
    proof (cases "group_start this ! i \<noteq> group_start this ! p")
      case True
      let ?r = "\<lparr>group_head = group_start this ! p, range_b = p, range_e = i\<rparr>"
      from True 1(3) have "p < i" by (cases "p = i") auto
      obtain rs p' where ih: "merge_loop f (Suc i) i (this, f ?r env) = (p', this, fold f rs (f ?r env))"
        "chain i rs p'" "p' < length (ix this)"
        "\<forall>r\<in>set rs. group_head r = group_start this ! range_b r"
        using 1(1) [OF lt True] lt by auto
      have "merge_loop f i p (this, env) = (p', this, fold f (?r # rs) env)"
        using lt True ih(1) by (subst merge_loop.simps) simp
      moreover have "chain p (?r # rs) p'" using ih(2) \<open>p < i\<close> by simp
      ultimately show ?thesis using ih(3,4)
        by (intro exI [of _ "?r # rs"] exI [of _ p']) simp
    next
      case False
      obtain rs p' where ih: "merge_loop f (Suc i) p (this, env) = (p', this, fold f rs env)"
        "chain p rs p'" "p' < length (ix this)"
        "\<forall>r\<in>set rs. group_head r = group_start this ! range_b r"
        using 1(2) [OF lt False] 1(3,4) by auto
      have "merge_loop f i p (this, env) = (p', this, fold f rs env)"
        using lt False ih(1) by (subst merge_loop.simps) simp
      with ih show ?thesis by blast
    qed
  qed
qed

lemma chain_snoc: "chain a rs m \<Longrightarrow> range_b r = m \<Longrightarrow> m < range_e r \<Longrightarrow> chain a (rs @ [r]) (range_e r)"
  by (induction rs arbitrary: a) auto

lemma chain_le: "chain a rs z \<Longrightarrow> a \<le> z"
  by (induction rs arbitrary: a) fastforce+

lemma chain_rows:
  "chain a rs z \<Longrightarrow> concat (map (range_rows ixs) rs) = map (\<lambda>p. ixs ! p) [a..<z]"
proof (induction rs arbitrary: a)
  case Nil
  then show ?case by simp
next
  case (Cons r rs)
  then have e: "a < range_e r" "range_e r \<le> z" "range_b r = a"
    using chain_le [of "range_e r" rs z] by auto
  then have "[a..<z] = [a..<range_e r] @ [range_e r..<z]"
    by (metis less_imp_le_nat upt_add_eq_append le_Suc_ex)
  with Cons e show ?case by (simp add: range_rows_def)
qed

lemma fold_record_range: "fold record_range rs calls = calls @ rs"
  by (induction rs arbitrary: calls) (auto simp: record_range_def)

lemma merge_calls_chain:
  assumes "length (group_start this) = length (ix this)"
  shows "chain 0 (merge_calls this) (length (ix this))
     \<and> (\<forall>r\<in>set (merge_calls this). group_head r = group_start this ! range_b r)"
proof (cases "ix this = []")
  case True
  then have "merge_loop record_range 0 0 (this, []) = (0, this, [])"
    by (subst merge_loop.simps) simp
  with True assms show ?thesis by (simp add: merge_calls_def merge_def)
next
  case False
  then have pos: "0 < length (ix this)" by simp
  obtain rs p' where l: "merge_loop record_range 0 0 (this, []) = (p', this, fold record_range rs [])"
     "chain 0 rs p'" "p' < length (ix this)" "\<forall>r\<in>set rs. group_head r = group_start this ! range_b r"
    using merge_loop_chain [of 0 0 this record_range "[]"] pos by auto
  let ?r = "\<lparr>group_head = group_start this ! p', range_b = p', range_e = length (ix this)\<rparr>"
  have "group_start this \<noteq> []" using pos assms by auto
  then have "merge_calls this = rs @ [?r]"
    using l(1) by (simp add: merge_calls_def merge_def fold_record_range record_range_def)
  moreover have "chain 0 (rs @ [?r]) (range_e ?r)"
    using l(2,3) by (intro chain_snoc) simp_all
  ultimately show ?thesis using l(4) by simp
qed

lemma merge_calls_rows:
  assumes "length (group_start this) = length (ix this)"
  shows "concat (map (range_rows (ix this)) (merge_calls this)) = ix this"
  using chain_rows [of 0 "merge_calls this" "length (ix this)" "ix this"]
    merge_calls_chain [OF assms] by (simp add: map_nth)

lemma merge_empty:
  assumes "ix this = []" "group_start this = []"
  shows "merge f (this, env) = (this, this, env)"
proof -
  have "merge_loop f 0 0 (this, env) = (0, this, env)"
    using assms by (subst merge_loop.simps) simp
  with assms show ?thesis by (simp add: merge_def)
qed

lemma concat_unique:
  "distinct (concat xss) \<Longrightarrow> j < length xss \<Longrightarrow> k < length xss \<Longrightarrow>
   x \<in> set (xss ! j) \<Longrightarrow> x \<in> set (xss ! k) \<Longrightarrow> j = k"
proof (induction xss arbitrary: j k)
  case Nil
  then show ?case by simp
next
  case (Cons xs xss)
  show ?case
  proof (cases j)
    case 0
    show ?thesis
    proof (cases k)
      case 0
      with \<open>j = 0\<close> show ?thesis by simp
    next
      case (Suc k')
      with Cons.prems 0 have "x \<in> set xs" "x \<in> set (concat xss)" by auto
      with Cons.prems(1) show ?thesis by auto
    qed
  next
    case (Suc j')
    show ?thesis
    proof (cases k)
      case 0
      with Cons.prems Suc have "x \<in> set xs" "x \<in> set (concat xss)" by auto
      with Cons.prems(1) show ?thesis by auto
    next
      case (Suc k')
      with Cons.prems \<open>j = Suc j'\<close> Cons.IH [of j' k'] show ?thesis by auto
    qed
  qed
qed

lemma merge_loop_any:
  "\<exists>rs p'. merge_loop record_range i p (this, calls) = (p', this, calls @ rs)
      \<and> merge_loop f i p (this, env) = (p', this, fold f rs env)"
proof (induction record_range i p "(this, calls)" arbitrary: calls env rule: merge_loop.induct)
  case (1 i p calls)
  show ?case
  proof (cases "i < length (ix this)")
    case False
    then have "merge_loop record_range i p (this, calls) = (p, this, calls @ [])"
      by (subst merge_loop.simps) simp
    moreover from False have "merge_loop f i p (this, env) = (p, this, fold f [] env)"
      by (subst merge_loop.simps) simp
    ultimately show ?thesis by blast
  next
    case lt: True
    show ?thesis
    proof (cases "group_start this ! i \<noteq> group_start this ! p")
      case True
      let ?r = "\<lparr>group_head = group_start this ! p, range_b = p, range_e = i\<rparr>"
      obtain rs p' where ih:
        "merge_loop record_range (Suc i) i (this, record_range ?r calls) = (p', this, record_range ?r calls @ rs)"
        "merge_loop f (Suc i) i (this, f ?r env) = (p', this, fold f rs (f ?r env))"
        using 1(1) [OF lt True, of "f ?r env"] by blast
      have "merge_loop record_range i p (this, calls) = (p', this, calls @ (?r # rs))"
        using lt True ih(1) by (subst merge_loop.simps) (simp add: record_range_def)
      moreover have "merge_loop f i p (this, env) = (p', this, fold f (?r # rs) env)"
        using lt True ih(2) by (subst merge_loop.simps) simp
      ultimately show ?thesis by blast
    next
      case False
      obtain rs p' where ih:
        "merge_loop record_range (Suc i) p (this, calls) = (p', this, calls @ rs)"
        "merge_loop f (Suc i) p (this, env) = (p', this, fold f rs env)"
        using 1(2) [OF lt False, of env] by blast
      have "merge_loop record_range i p (this, calls) = (p', this, calls @ rs)"
        using lt False ih(1) by (subst merge_loop.simps) simp
      moreover have "merge_loop f i p (this, env) = (p', this, fold f rs env)"
        using lt False ih(2) by (subst merge_loop.simps) simp
      ultimately show ?thesis by blast
    qed
  qed
qed

lemma merge_folds_calls:
  "merge f (this, env) = (this, this, fold f (merge_calls this) env)"
proof -
  obtain rs p' where l: "merge_loop record_range 0 0 (this, []) = (p', this, [] @ rs)"
    "merge_loop f 0 0 (this, env) = (p', this, fold f rs env)"
    using merge_loop_any [of 0 0 this "[]" f env] by blast
  then show ?thesis
    by (simp add: merge_def merge_calls_def record_range_def)
qed

text \<open>
  C3. For \<open>n < 2 ^ 32\<close> rows (beyond that the 32-bit counters of the constructor wrap
  and no index is built), when \<^verbatim>\<open>std::sort\<close> meets its contract, the constructor
  returns an index for which: the ranges \<^verbatim>\<open>merge\<close> passes to its callback follow each
  other from position 0 to position \<open>n\<close> and none is empty; their slices of
  \<^verbatim>\<open>ix\<close>, concatenated, are \<^verbatim>\<open>ix\<close>; every row id below \<open>n\<close> lies in the slice
  of exactly one of them; whatever the callback, \<^verbatim>\<open>merge\<close> applies it to these ranges
  in order. For \<open>n = 0\<close> both vectors are empty and the callback is not invoked.
\<close>

theorem merge_partitions_rows:
  assumes "n < 2 ^ 32"
    and "std_sort_post (key_less vals) [0..<n] (std_sort (key_less vals) [0..<n])"
  shows "\<exists>idx. Index_ctor std_sort n vals = Some idx
    \<and> chain 0 (merge_calls idx) n
    \<and> concat (map (range_rows (ix idx)) (merge_calls idx)) = ix idx
    \<and> (\<forall>r<n. \<exists>!k. k < length (merge_calls idx)
                    \<and> r \<in> set (range_rows (ix idx) (merge_calls idx ! k)))
    \<and> (\<forall>f env. merge f (idx, env) = (idx, idx, fold f (merge_calls idx) env))
    \<and> (n = 0 \<longrightarrow> ix idx = [] \<and> group_start idx = [] \<and> merge_calls idx = []
          \<and> (\<forall>f env. merge f (idx, env) = (idx, idx, env)))"
proof -
  obtain idx where built: "Index_ctor std_sort n vals = Some idx"
    using Index_ctor_returns [OF assms(1)] by blast
  let ?rows = "map (range_rows (ix idx)) (merge_calls idx)"
  have ixs: "ix idx = std_sort (key_less vals) [0..<n]"
    and lg: "length (group_start idx) = n"
    using built by (rule Index_ctor_Some)+
  have m: "mset (ix idx) = mset [0..<n]"
    using assms(2) unfolding ixs std_sort_post_def by simp
  then have len: "length (ix idx) = n"
    using mset_eq_length [of "ix idx" "[0..<n]"] by simp
  have set: "set (ix idx) = {0..<n}"
    using mset_eq_setD [OF m] by simp
  have dist: "distinct (ix idx)"
    using mset_eq_imp_distinct_iff [OF m] by simp
  have wf: "length (group_start idx) = length (ix idx)" using lg len by simp
  have ch: "chain 0 (merge_calls idx) n"
    using merge_calls_chain [OF wf] len by simp
  have rows: "concat ?rows = ix idx" by (rule merge_calls_rows [OF wf])
  have uniq: "\<exists>!k. k < length (merge_calls idx)
                    \<and> r \<in> set (range_rows (ix idx) (merge_calls idx ! k))" if "r < n" for r
  proof -
    from that set rows have "r \<in> set (concat ?rows)" by simp
    then obtain xs where "xs \<in> set ?rows" "r \<in> set xs" by auto
    then obtain k where k: "k < length ?rows" "r \<in> set (?rows ! k)"
      by (metis in_set_conv_nth)
    show ?thesis
    proof (rule ex1I [of _ k])
      show "k < length (merge_calls idx) \<and> r \<in> set (range_rows (ix idx) (merge_calls idx ! k))"
        using k by simp
    next
      fix j
      assume "j < length (merge_calls idx) \<and> r \<in> set (range_rows (ix idx) (merge_calls idx ! j))"
      then have "j < length ?rows" "r \<in> set (?rows ! j)" by simp_all
      with k dist rows show "j = k"
        using concat_unique [of ?rows j k r] by simp
    qed
  qed
  have empty: "ix idx = [] \<and> group_start idx = [] \<and> merge_calls idx = []
          \<and> (\<forall>f env. merge f (idx, env) = (idx, idx, env))" if "n = 0"
  proof -
    from that len lg have e: "ix idx = []" "group_start idx = []" by simp_all
    from ch that have "merge_calls idx = []" by (cases "merge_calls idx") (auto dest: chain_le)
    with e show ?thesis by (simp add: merge_empty)
  qed
  have any: "\<forall>f env. merge f (idx, env) = (idx, idx, fold f (merge_calls idx) env)"
    by (simp add: merge_folds_calls)
  from uniq have uniq': "\<forall>r<n. \<exists>!k. k < length (merge_calls idx)
                    \<and> r \<in> set (range_rows (ix idx) (merge_calls idx ! k))"
    by simp
  from empty have empty': "n = 0 \<longrightarrow> ix idx = [] \<and> group_start idx = [] \<and> merge_calls idx = []
          \<and> (\<forall>f env. merge f (idx, env) = (idx, idx, env))"
    by (rule impI)
  from built ch rows uniq' any empty' show ?thesis
    by (intro exI [of _ idx] conjI)
qed

theorem merge_partitions_rows_witness:
  "merge_calls \<lparr>ix = [1, 4, 3, 0, 2], group_start = [1, 4, 3, 0, 0]\<rparr> =
     [\<lparr>group_head = 1, range_b = 0, range_e = 1\<rparr>, \<lparr>group_head = 4, range_b = 1, range_e = 2\<rparr>,
      \<lparr>group_head = 3, range_b = 2, range_e = 3\<rparr>, \<lparr>group_head = 0, range_b = 3, range_e = 5\<rparr>]
   \<and> concat (map (range_rows [1, 4, 3, 0, 2])
     (merge_calls \<lparr>ix = [1, 4, 3, 0, 2], group_start = [1, 4, 3, 0, 0]\<rparr>)) = [1, 4, 3, 0, 2]
   \<and> Index_ctor stable_insertion_sort 0 example_keys = Some \<lparr>ix = [], group_start = []\<rparr>
   \<and> merge_calls \<lparr>ix = [], group_start = []\<rparr> = []"
proof -
  let ?idx = "\<lparr>ix = [1, 4, 3, 0, 2], group_start = [1, 4, 3, 0, 0]\<rparr>"
  have b: "Index_ctor stable_insertion_sort 5 example_keys = Some ?idx"
    by code_simp
  have n: "(5::nat) < 2 ^ 32" by simp
  have s: "std_sort_post (key_less example_keys) [0..<5]
      (stable_insertion_sort (key_less example_keys) [0..<5])"
    by (rule stable_insertion_sort_post)
  have b0: "Index_ctor stable_insertion_sort 0 example_keys = Some \<lparr>ix = [], group_start = []\<rparr>"
    by code_simp
  have n0: "(0::nat) < 2 ^ 32" by simp
  have s0: "std_sort_post (key_less example_keys) [0..<0]
      (stable_insertion_sort (key_less example_keys) [0..<0])"
    by (rule stable_insertion_sort_post)
  have calls: "merge_calls ?idx =
     [\<lparr>group_head = 1, range_b = 0, range_e = 1\<rparr>, \<lparr>group_head = 4, range_b = 1, range_e = 2\<rparr>,
      \<lparr>group_head = 3, range_b = 2, range_e = 3\<rparr>, \<lparr>group_head = 0, range_b = 3, range_e = 5\<rparr>]"
    by code_simp
  from merge_partitions_rows [where n = 5 and vals = example_keys
      and std_sort = stable_insertion_sort, OF n s]
  obtain idx where i: "Index_ctor stable_insertion_sort 5 example_keys = Some idx"
    "concat (map (range_rows (ix idx)) (merge_calls idx)) = ix idx"
    by blast
  from i(1) b have eq: "idx = ?idx" by simp
  from merge_partitions_rows [where n = 0 and vals = example_keys
      and std_sort = stable_insertion_sort, OF n0 s0]
  obtain idx0 where i0: "Index_ctor stable_insertion_sort 0 example_keys = Some idx0"
    "(0::nat) = 0 \<longrightarrow> ix idx0 = [] \<and> group_start idx0 = [] \<and> merge_calls idx0 = []
          \<and> (\<forall>f env. merge f (idx0, env) = (idx0, idx0, env))"
    by blast
  from i0(1) b0 have eq0: "idx0 = \<lparr>ix = [], group_start = []\<rparr>" by simp
  from i0(2) have "merge_calls \<lparr>ix = [], group_start = []\<rparr> = []"
    unfolding eq0 by simp
  with i(2) calls b0 show ?thesis unfolding eq by simp
qed

end
